theory Spec2Isabelle
  imports Complex_Main "HOL-Library.AList"
begin

section \<open>The VQAv2 dataset reader\<close>

text \<open>
  A shallow embedding of \<^verbatim>\<open>allennlp_models/vision/dataset_readers/vqav2.py\<close>.
  Python's unbounded integers are \<open>int\<close>, its strings are \<open>string\<close>, and a
  \<^verbatim>\<open>dict\<close> is an association list in insertion order with distinct keys:
  \<open>AList.update\<close> is Python's item assignment (an existing key keeps its place,
  a new key goes to the end), \<open>map_of\<close> is \<^verbatim>\<open>.get\<close> and
  \<open>AList.delete\<close> is \<^verbatim>\<open>del\<close>. A Python \<^verbatim>\<open>float\<close> is
  modelled by the exact number in \<open>real\<close>: rounding is not part of the model.
  A generator is the list of what it yields together with the exception that ends it,
  if one does.
\<close>

subsection \<open>Errors and Python values\<close>

datatype error =
    ValueError string
  | KeyError int
  | FileNotFoundError string
  | CacheContentError

text \<open>\<^verbatim>\<open>str(n)\<close> for an integer: its decimal digits, with a sign when negative.\<close>

function str_nat :: "nat \<Rightarrow> string" where
  "str_nat n =
     (if n < 10 then [''0123456789'' ! n]
      else str_nat (n div 10) @ [''0123456789'' ! (n mod 10)])"
  by pat_completeness auto
termination
  by (relation "measure id") auto

declare str_nat.simps [simp del]

definition str_int :: "int \<Rightarrow> string" where
  "str_int i = (if i < 0 then CHR ''-'' # str_nat (nat (- i)) else str_nat (nat i))"

text \<open>
  Where the reader looks into the characters of a string (the names of the image files), the
  string is the list of its Unicode code points; \<open>code_points\<close> is an ASCII literal as
  such a string. Elsewhere strings are only compared and joined.
\<close>

type_synonym pystr = "nat list"

definition code_points :: "string \<Rightarrow> pystr" where
  "code_points s = map of_char s"

text \<open>
  The values \<^verbatim>\<open>json.load\<close> returns and \<^verbatim>\<open>json.dump\<close> accepts, as far as
  the reader meets them, and a JSON document as a value. \<^verbatim>\<open>json.dump\<close> writes a
  \<^verbatim>\<open>Counter\<close> as the \<^verbatim>\<open>dict\<close> it is, a string key as itself and an integer
  key as its decimal string; \<^verbatim>\<open>json.load\<close> gives every object back as a
  \<^verbatim>\<open>dict\<close> with string keys, a repeated name keeping its last value. The text
  of the document (escapes, white space) is not modelled.
\<close>

datatype json =
    JNull | JBool bool | JInt int | JStr string
  | JArr "json list" | JObj "(string \<times> json) list"

datatype pykey = KStr string | KInt int

datatype pyobj =
    PyNone | PyBool bool | PyInt int | PyStr string
  | PyList "pyobj list" | PyDict "(pykey \<times> pyobj) list"

definition dict_of_pairs :: "('k \<times> 'v) list \<Rightarrow> ('k \<times> 'v) list" where
  "dict_of_pairs kvs = foldl (\<lambda>d (k, v). AList.update k v d) [] kvs"

fun json_dump :: "pyobj \<Rightarrow> json" where
  "json_dump PyNone = JNull"
| "json_dump (PyBool b) = JBool b"
| "json_dump (PyInt i) = JInt i"
| "json_dump (PyStr s) = JStr s"
| "json_dump (PyList xs) = JArr (map json_dump xs)"
| "json_dump (PyDict kvs) =
     JObj (map (\<lambda>(k, v). (case k of KStr s \<Rightarrow> s | KInt i \<Rightarrow> str_int i, json_dump v)) kvs)"

fun json_load :: "json \<Rightarrow> pyobj" where
  "json_load JNull = PyNone"
| "json_load (JBool b) = PyBool b"
| "json_load (JInt i) = PyInt i"
| "json_load (JStr s) = PyStr s"
| "json_load (JArr xs) = PyList (map json_load xs)"
| "json_load (JObj kvs) = PyDict (dict_of_pairs (map (\<lambda>(k, v). (KStr k, json_load v)) kvs))"

text \<open>
  The reader's \<^verbatim>\<open>answers_by_question_id\<close> is a \<^verbatim>\<open>dict\<close> from strings to
  \<^verbatim>\<open>MutableMapping[str, int]\<close>. \<open>py_of_answers\<close> is that value as \<^verbatim>\<open>json.dump\<close>
  sees it, \<open>answers_of_py\<close> reads a loaded value at that type (\<open>None\<close> when the value
  is not of that type).
\<close>

type_synonym answer_counts = "(string \<times> int) list"
type_synonym answers = "(string \<times> answer_counts) list"

definition py_of_counts :: "answer_counts \<Rightarrow> pyobj" where
  "py_of_counts c = PyDict (map (\<lambda>(a, n). (KStr a, PyInt n)) c)"

definition py_of_answers :: "answers \<Rightarrow> pyobj" where
  "py_of_answers d = PyDict (map (\<lambda>(q, c). (KStr q, py_of_counts c)) d)"

fun count_of_py :: "pykey \<times> pyobj \<Rightarrow> (string \<times> int) option" where
  "count_of_py (KStr a, PyInt n) = Some (a, n)"
| "count_of_py _ = None"

fun those_list :: "'a option list \<Rightarrow> 'a list option" where
  "those_list [] = Some []"
| "those_list (x # xs) =
     (case x of None \<Rightarrow> None
      | Some y \<Rightarrow> (case those_list xs of None \<Rightarrow> None | Some ys \<Rightarrow> Some (y # ys)))"

fun counts_of_py :: "pyobj \<Rightarrow> answer_counts option" where
  "counts_of_py (PyDict kvs) = those_list (map count_of_py kvs)"
| "counts_of_py _ = None"

fun entry_of_py :: "pykey \<times> pyobj \<Rightarrow> (string \<times> answer_counts) option" where
  "entry_of_py (KStr q, v) = (case counts_of_py v of None \<Rightarrow> None | Some c \<Rightarrow> Some (q, c))"
| "entry_of_py _ = None"

fun answers_of_py :: "pyobj \<Rightarrow> answers option" where
  "answers_of_py (PyDict kvs) = those_list (map entry_of_py kvs)"
| "answers_of_py _ = None"

subsection \<open>Scoring an answer\<close>

text \<open>
  \<^verbatim>\<open>
  def get_score(count: int) -> float:
      return min(1.0, count / 3)
  \<close>
\<close>

definition get_score :: "int \<Rightarrow> real" where
  "get_score count = min 1 (real_of_int count / 3)"

subsection \<open>The reader and what it is built from\<close>

text \<open>
  A featurized image is the tuple \<^verbatim>\<open>(features, coordinates, _, _)\<close> of tensors; a
  tensor is the list of its rows.
\<close>

type_synonym tensor = "real list list"
type_synonym processed_image = "tensor \<times> tensor \<times> tensor option \<times> tensor option"

datatype image_arg = ImagePath string | Processed processed_image

text \<open>
  The entries of the JSON files are read by key; a field \<open>k_name\<close> is the value under
  the key \<^verbatim>\<open>"name"\<close>.
\<close>

record question_dict =
  k_question_id :: int
  k_image_id :: int
  k_question :: string

record answer_dict =
  k_answer :: string

record annotation =
  a_question_id :: int
  a_answers :: "answer_dict list"
  a_multiple_choice_answer :: string

text \<open>
  The parts of the toolkit and of the repository that the reader calls and that are not
  in the file are parameters: the tokenizer, \<^verbatim>\<open>utils.preprocess_answer\<close>,
  \<^verbatim>\<open>utils.get_data_slice\<close> (the slice it returns is represented by what slicing a
  list with it gives), \<^verbatim>\<open>shard_iterable\<close>, \<^verbatim>\<open>cached_path\<close>, and what
  \<^verbatim>\<open>VisionReader._process_image_paths\<close> yields for one path (it yields one
  featurized image for each path, in order). They are total functions: a failure inside
  them is outside the model. So is the table of the decimal digits of Unicode beyond
  ASCII, which \<^verbatim>\<open>\d\<close> and \<^verbatim>\<open>int\<close> share: \<open>unicode_decimal\<close> gives the digit
  value of a code point that is a decimal digit, and \<open>None\<close> for any other.
\<close>

record env =
  tokenize :: "string \<Rightarrow> string list"
  preprocess_answer :: "string \<Rightarrow> string"
  get_data_slice :: "string \<Rightarrow> (question_dict list \<Rightarrow> question_dict list) \<times> string"
  shard_iterable :: "question_dict list \<Rightarrow> question_dict list"
  cached_path :: "string \<Rightarrow> string"
  featurize :: "bool \<Rightarrow> string \<Rightarrow> processed_image"
  unicode_decimal :: "nat \<Rightarrow> nat option"

definition process_image_paths :: "env \<Rightarrow> string list \<Rightarrow> bool \<Rightarrow> processed_image list" where
  "process_image_paths env image_paths use_cache = map (featurize env use_cache) image_paths"

text \<open>
  \<^verbatim>\<open>self.images\<close> maps file names to full paths when the base class has built it,
  and image ids to full paths after \<^verbatim>\<open>__init__\<close> has normalized it.
\<close>

datatype images = ByName "(pystr \<times> string) list" | ById "(int option \<times> string) list"

record VQAv2Reader =
  answer_vocab :: "string set option"
  images :: images
  produce_featurized_images :: bool
  multiple_answers_per_question :: bool

text \<open>What \<^verbatim>\<open>super().__init__\<close> leaves in the object, as far as the reader uses it.\<close>

record VisionReader =
  vr_images :: "(pystr \<times> string) list"
  vr_produce_featurized_images :: bool

text \<open>
  The files the reader opens: a questions file is the list under its
  \<^verbatim>\<open>"questions"\<close> key, an annotations file the list under \<^verbatim>\<open>"annotations"\<close>;
  \<open>cache\<close> holds the documents of the \<^verbatim>\<open>LocalCacheResource\<close>s, by resource
  name and version.
\<close>

record fs =
  annotation_files :: "string \<rightharpoonup> annotation list"
  question_files :: "string \<rightharpoonup> question_dict list"
  cache :: "string \<times> string \<rightharpoonup> json"

record Split =
  annotations :: "string option"
  questions :: string

record Instance =
  question_field :: "string list"
  box_features :: "tensor option"
  box_coordinates :: "tensor option"
  box_mask :: "bool list option"
  labels :: "string list option"
  label_weights :: "real list option"

subsection \<open>\<^verbatim>\<open>__init__\<close>\<close>

text \<open>
  The decimal digits: the ten of ASCII, and those of the Unicode table. In a pattern on
  strings \<^verbatim>\<open>\d\<close> matches any of them, and \<^verbatim>\<open>int\<close> reads a string of them in
  base ten, whatever their script.
\<close>

definition decimal_digit :: "env \<Rightarrow> nat \<Rightarrow> nat option" where
  "decimal_digit env c = (if 48 \<le> c \<and> c \<le> 57 then Some (c - 48) else unicode_decimal env c)"

definition is_digit :: "env \<Rightarrow> nat \<Rightarrow> bool" where
  "is_digit env c = (decimal_digit env c \<noteq> None)"

text \<open>
  \<^verbatim>\<open>int(s)\<close> for a string of decimal digits, which is what group 1 of the pattern
  below is.
\<close>

definition int_of_digits :: "env \<Rightarrow> pystr \<Rightarrow> int" where
  "int_of_digits env s = foldl (\<lambda>a c. 10 * a + int (the (decimal_digit env c))) 0 s"

text \<open>
  \<^verbatim>\<open>filename_re = re.compile(r".*(\d{12})\.((jpg)|(png))")\<close>, matched with
  \<^verbatim>\<open>fullmatch\<close>: \<^verbatim>\<open>.*\<close> takes the longest prefix without a newline after which
  the rest is twelve digits, a dot and one of the two extensions. The result is group 1.
\<close>

definition filename_re_tail :: "env \<Rightarrow> pystr \<Rightarrow> bool" where
  "filename_re_tail env t =
     (length t = 16 \<and> list_all (is_digit env) (take 12 t) \<and>
      (drop 12 t = code_points ''.jpg'' \<or> drop 12 t = code_points ''.png''))"

definition filename_re_fullmatch :: "env \<Rightarrow> pystr \<Rightarrow> pystr option" where
  "filename_re_fullmatch env filename =
     (case List.find (\<lambda>k. 10 \<notin> set (take k filename) \<and> filename_re_tail env (drop k filename))
             (rev [0..<Suc (length filename)]) of
        None \<Rightarrow> None
      | Some k \<Rightarrow> Some (take 12 (drop k filename)))"

definition id_from_filename :: "env \<Rightarrow> pystr \<Rightarrow> int option" where
  "id_from_filename env filename =
     (case filename_re_fullmatch env filename of
        None \<Rightarrow> None
      | Some group1 \<Rightarrow> Some (int_of_digits env group1))"

definition normalize_images :: "env \<Rightarrow> (pystr \<times> string) list \<Rightarrow> (int option \<times> string) list" where
  "normalize_images env ims =
     AList.delete None
       (foldl (\<lambda>d (name, full_path). AList.update (id_from_filename env name) full_path d) [] ims)"

definition VQAv2Reader_init ::
  "env \<Rightarrow> string option \<Rightarrow> bool \<Rightarrow> VisionReader \<Rightarrow> string list option \<Rightarrow> bool \<Rightarrow> error + VQAv2Reader"
where
  "VQAv2Reader_init env image_dir run_featurization base answer_vocab_tokens multiple =
     (if image_dir = None \<and> run_featurization
      then Inl (ValueError
        (''Because of the size of the image datasets, we don't download them automatically. '' @
         ''Please go to https://visualqa.org/download.html, download the datasets you need, '' @
         ''and set the image_dir parameter to point to your download location. This dataset '' @
         ''reader does not care about the exact directory structure. It finds the images '' @
         ''wherever they are.''))
      else Inr \<lparr>
        answer_vocab =
          (case answer_vocab_tokens of
             None \<Rightarrow> None
           | Some toks \<Rightarrow> Some (set (map (preprocess_answer env) toks))),
        images =
          (if vr_produce_featurized_images base then ById (normalize_images env (vr_images base))
           else ByName (vr_images base)),
        produce_featurized_images = vr_produce_featurized_images base,
        multiple_answers_per_question = multiple \<rparr>)"

subsection \<open>\<^verbatim>\<open>text_to_instance\<close>\<close>

fun collect_answers :: "VQAv2Reader \<Rightarrow> answer_counts \<Rightarrow> string list \<times> real list" where
  "collect_answers self [] = ([], [])"
| "collect_answers self ((answer, count) # rest) =
     (let (answer_fields, weights) = collect_answers self rest in
      if answer_vocab self = None \<or> answer \<in> the (answer_vocab self)
      then (answer # answer_fields, get_score count # weights)
      else (answer_fields, weights))"

definition text_to_instance ::
  "VQAv2Reader \<Rightarrow> env \<Rightarrow> string \<Rightarrow> image_arg option \<Rightarrow> answer_counts option \<Rightarrow> bool \<Rightarrow> Instance option"
where
  "text_to_instance self env question image_arg answer_counts use_cache =
     (let tokenized_question = tokenize env question;
          fields0 = \<lparr> question_field = tokenized_question, box_features = None,
                      box_coordinates = None, box_mask = None, labels = None,
                      label_weights = None \<rparr>;
          fields1 =
            (case image_arg of
               None \<Rightarrow> fields0
             | Some img \<Rightarrow>
                 (let (features, coords, _, _) =
                        (case img of
                           ImagePath p \<Rightarrow> hd (process_image_paths env [p] use_cache)
                         | Processed t \<Rightarrow> t)
                  in fields0 \<lparr> box_features := Some features,
                               box_coordinates := Some coords,
                               box_mask := Some (replicate (length features) True) \<rparr>))
      in case answer_counts of
           None \<Rightarrow> Some fields1
         | Some counts \<Rightarrow>
             (let (answer_fields, weights) = collect_answers self counts in
              if length answer_fields \<le> 0 then None
              else Some (fields1 \<lparr> labels := Some answer_fields,
                                   label_weights := Some weights \<rparr>)))"

subsection \<open>\<^verbatim>\<open>_get_answers_by_question_id\<close>\<close>

definition counter_add :: "answer_counts \<Rightarrow> string \<Rightarrow> answer_counts" where
  "counter_add c k = AList.update k ((case map_of c k of None \<Rightarrow> 0 | Some n \<Rightarrow> n) + 1) c"

definition record_answer_counts :: "VQAv2Reader \<Rightarrow> env \<Rightarrow> annotation \<Rightarrow> answer_counts" where
  "record_answer_counts self env a =
     (if multiple_answers_per_question self
      then foldl (\<lambda>c ans. counter_add c (preprocess_answer env ans)) [] (map k_answer (a_answers a))
      else AList.update (preprocess_answer env (a_multiple_choice_answer a)) 1 [])"

definition compute_answers :: "VQAv2Reader \<Rightarrow> env \<Rightarrow> annotation list \<Rightarrow> answers" where
  "compute_answers self env anns =
     foldl (\<lambda>d a. AList.update (str_int (a_question_id a)) (record_answer_counts self env a) d)
       [] anns"

text \<open>
  The answers of a split, and the file system after the call. With annotations, the cache
  entry of the split is read when there is one, and computed from the annotations file and
  written otherwise. A cache document that is not a mapping from strings to mappings from
  strings to integers ends the model with \<open>CacheContentError\<close>: what Python goes on to
  do with such a value is not modelled. The reader never writes such a document.
\<close>

definition get_answers_by_question_id ::
  "VQAv2Reader \<Rightarrow> env \<Rightarrow> Split \<Rightarrow> fs \<Rightarrow> (error + answers) \<times> fs"
where
  "get_answers_by_question_id self env split s =
     (case annotations split of
        None \<Rightarrow> (Inr [], s)
      | Some ann \<Rightarrow>
          (let annotations_path = cached_path env ann;
               key = (ann @ ''-cache'', annotations_path)
           in case cache s key of
                Some doc \<Rightarrow>
                  (case answers_of_py (json_load doc) of
                     None \<Rightarrow> (Inl CacheContentError, s)
                   | Some answers_by_question_id \<Rightarrow> (Inr answers_by_question_id, s))
              | None \<Rightarrow>
                  (case annotation_files s annotations_path of
                     None \<Rightarrow> (Inl (FileNotFoundError annotations_path), s)
                   | Some anns \<Rightarrow>
                       (let answers_by_question_id = compute_answers self env anns
                        in (Inr answers_by_question_id,
                            s \<lparr> cache := (cache s)
                                  (key \<mapsto> json_dump (py_of_answers answers_by_question_id)) \<rparr>)))))"

subsection \<open>\<^verbatim>\<open>_read\<close>\<close>

definition aws_base :: string where
  "aws_base = ''https://s3.amazonaws.com/cvmlp/vqa/''"

definition mscoco_base :: string where
  "mscoco_base = aws_base @ ''mscoco/vqa/''"

definition scene_base :: string where
  "scene_base = aws_base @ ''abstract_v002/vqa/''"

definition splits :: "(string \<times> Split) list" where
  "splits =
    [(''balanced_real_train'', \<lparr>
        annotations = Some (mscoco_base @ ''v2_Annotations_Train_mscoco.zip!v2_mscoco_train2014_annotations.json''),
        questions = mscoco_base @ ''v2_Questions_Train_mscoco.zip!v2_OpenEnded_mscoco_train2014_questions.json'' \<rparr>),
     (''balanced_real_val'', \<lparr>
        annotations = Some (mscoco_base @ ''v2_Annotations_Val_mscoco.zip!v2_mscoco_val2014_annotations.json''),
        questions = mscoco_base @ ''v2_Questions_Val_mscoco.zip!v2_OpenEnded_mscoco_val2014_questions.json'' \<rparr>),
     (''balanced_real_test'', \<lparr>
        annotations = None,
        questions = mscoco_base @ ''v2_Questions_Test_mscoco.zip!v2_OpenEnded_mscoco_test2015_questions.json'' \<rparr>),
     (''balanced_bas_train'', \<lparr>
        annotations = Some (scene_base @ ''Annotations_Binary_Train2017_abstract_v002.zip!abstract_v002_train2017_annotations.json''),
        questions = scene_base @ ''Questions_Binary_Train2017_abstract_v002.zip!OpenEnded_abstract_v002_train2017_questions.json'' \<rparr>),
     (''balanced_bas_val'', \<lparr>
        annotations = Some (scene_base @ ''Annotations_Binary_Val2017_abstract_v002.zip!abstract_v002_val2017_annotations.json''),
        questions = scene_base @ ''Questions_Binary_Val2017_abstract_v002.zip!OpenEnded_abstract_v002_val2017_questions.json'' \<rparr>),
     (''abstract_scenes_train'', \<lparr>
        annotations = Some (scene_base @ ''Annotations_Train_abstract_v002.zip!abstract_v002_train2015_annotations.json''),
        questions = scene_base @ ''Questions_Train_abstract_v002.zip!OpenEnded_abstract_v002_train2015_questions.json'' \<rparr>),
     (''abstract_scenes_val'', \<lparr>
        annotations = Some (scene_base @ ''Annotations_Val_abstract_v002.zip!abstract_v002_val2015_annotations.json''),
        questions = scene_base @ ''Questions_Val_abstract_v002.zip!OpenEnded_abstract_v002_val2015_questions.json'' \<rparr>),
     (''abstract_scenes_test'', \<lparr>
        annotations = None,
        questions = scene_base @ ''Questions_Test_abstract_v002.zip!OpenEnded_abstract_v002_test2015_questions.json'' \<rparr>),
     (''unittest'', \<lparr>
        annotations = Some ''test_fixtures/vision/vqav2/annotations.json'',
        questions = ''test_fixtures/vision/vqav2/questions.json'' \<rparr>)]"

text \<open>
  \<^verbatim>\<open>self.images[key]\<close> for an integer key: a miss raises \<^verbatim>\<open>KeyError\<close>, and in
  a map from file names every integer is a miss.
\<close>

definition images_get :: "images \<Rightarrow> int \<Rightarrow> string option" where
  "images_get ims i = (case ims of ById d \<Rightarrow> map_of d (Some i) | ByName d \<Rightarrow> None)"

text \<open>
  The list comprehension
  \<^verbatim>\<open>[self.images[int(question_dict["image_id"])] for question_dict in question_dicts]\<close>:
  the first missing id ends it with \<^verbatim>\<open>KeyError(missing_id, ...)\<close>.
\<close>

fun lookup_image_paths :: "VQAv2Reader \<Rightarrow> question_dict list \<Rightarrow> error + string list" where
  "lookup_image_paths self [] = Inr []"
| "lookup_image_paths self (question_dict # rest) =
     (case images_get (images self) (k_image_id question_dict) of
        None \<Rightarrow> Inl (KeyError (k_image_id question_dict))
      | Some path \<Rightarrow>
          (case lookup_image_paths self rest of
             Inl e \<Rightarrow> Inl e
           | Inr paths \<Rightarrow> Inr (path # paths)))"

text \<open>
  The final loop over \<^verbatim>\<open>zip(question_dicts, processed_images)\<close>: the instances
  that are not \<^verbatim>\<open>None\<close> are yielded (the counters only feed a log message).
\<close>

fun read_loop ::
  "VQAv2Reader \<Rightarrow> env \<Rightarrow> answers \<Rightarrow> (question_dict \<times> processed_image option) list \<Rightarrow> Instance list"
where
  "read_loop self env answers_by_question_id [] = []"
| "read_loop self env answers_by_question_id ((question_dict, processed_image) # rest) =
     (let answers = map_of answers_by_question_id (str_int (k_question_id question_dict));
          inst = text_to_instance self env (k_question question_dict)
                   (map_option Processed processed_image) answers True
      in case inst of
           None \<Rightarrow> read_loop self env answers_by_question_id rest
         | Some i \<Rightarrow> i # read_loop self env answers_by_question_id rest)"

type_synonym 'a generator = "'a list \<times> error option"

text \<open>
  \<^verbatim>\<open>_read\<close> for one split name. \<open>read_prepare\<close> is the function up to the final
  loop: it gives the answers by question id and the question dictionaries zipped with
  their processed images, or the exception raised on the way; \<open>read_split\<close> then runs
  the loop.
\<close>

definition read_prepare ::
  "VQAv2Reader \<Rightarrow> env \<Rightarrow> string \<Rightarrow> fs \<Rightarrow>
     (error + answers \<times> (question_dict \<times> processed_image option) list) \<times> fs"
where
  "read_prepare self env split_name0 s =
     (let (question_slice, split_name) = get_data_slice env split_name0 in
      case map_of splits split_name of
        None \<Rightarrow> (Inl (ValueError (''Unrecognized split: '' @ split_name @ ''.'')), s)
      | Some split \<Rightarrow>
          (case get_answers_by_question_id self env split s of
             (Inl e, s1) \<Rightarrow> (Inl e, s1)
           | (Inr answers_by_question_id, s1) \<Rightarrow>
               (let questions_path = cached_path env (questions split) in
                case question_files s1 questions_path of
                  None \<Rightarrow> (Inl (FileNotFoundError questions_path), s1)
                | Some questions_file \<Rightarrow>
                    (let question_dicts = shard_iterable env (question_slice questions_file) in
                     if produce_featurized_images self
                     then (case lookup_image_paths self question_dicts of
                             Inl e \<Rightarrow> (Inl e, s1)
                           | Inr image_paths \<Rightarrow>
                               (Inr (answers_by_question_id,
                                     zip question_dicts
                                       (map Some (process_image_paths env image_paths True))),
                                s1))
                     else (Inr (answers_by_question_id,
                                zip question_dicts (replicate (length question_dicts) None)),
                           s1)))))"

definition read_split ::
  "VQAv2Reader \<Rightarrow> env \<Rightarrow> string \<Rightarrow> fs \<Rightarrow> Instance generator \<times> fs"
where
  "read_split self env split_name s =
     (case read_prepare self env split_name s of
        (Inl e, s1) \<Rightarrow> (([], Some e), s1)
      | (Inr (answers_by_question_id, zipped), s1) \<Rightarrow>
          ((read_loop self env answers_by_question_id zipped, None), s1))"

text \<open>
  A list of splits: \<^verbatim>\<open>yield from self._read(split_name)\<close> for each name in turn. An
  exception in one of them ends the whole generator after what was yielded so far.
\<close>

fun read_list ::
  "VQAv2Reader \<Rightarrow> env \<Rightarrow> string list \<Rightarrow> fs \<Rightarrow> Instance generator \<times> fs"
where
  "read_list self env [] s = (([], None), s)"
| "read_list self env (split_name # rest) s =
     (case read_split self env split_name s of
        ((xs, Some e), s1) \<Rightarrow> ((xs, Some e), s1)
      | ((xs, None), s1) \<Rightarrow>
          (case read_list self env rest s1 of
             ((ys, e), s2) \<Rightarrow> ((xs @ ys, e), s2)))"

datatype splits_arg = SplitName string | SplitList "string list"

definition read :: "VQAv2Reader \<Rightarrow> env \<Rightarrow> splits_arg \<Rightarrow> fs \<Rightarrow> Instance generator \<times> fs" where
  "read self env splits_or_list_of_splits s =
     (case splits_or_list_of_splits of
        SplitName split_name \<Rightarrow> read_split self env split_name s
      | SplitList names \<Rightarrow> read_list self env names s)"

subsection \<open>The vocabulary filter, as the documentation states it\<close>

text \<open>
  "If this is given, the reader only outputs instances with answers contained in this
  vocab. If this is not given, the reader outputs all instances with all answers."
  The vocabulary is the set of preprocessed answer tokens.
\<close>

definition passes_vocab :: "string set option \<Rightarrow> string \<Rightarrow> bool" where
  "passes_vocab vocab a = (case vocab of None \<Rightarrow> True | Some v \<Rightarrow> a \<in> v)"

definition kept_answers :: "VQAv2Reader \<Rightarrow> answer_counts \<Rightarrow> answer_counts" where
  "kept_answers self counts = filter (\<lambda>(a, c). passes_vocab (answer_vocab self) a) counts"

text \<open>
  What the pattern of \<open>filename_re\<close> says of a whole file name, with the digits of
  group 1: any characters but a newline, twelve decimal digits, a dot, and \<^verbatim>\<open>jpg\<close> or
  \<^verbatim>\<open>png\<close>. \<open>decimal_value\<close> is the number a string of decimal digits denotes, each
  digit weighted by its place.
\<close>

definition filename_pattern :: "env \<Rightarrow> pystr \<Rightarrow> pystr \<Rightarrow> bool" where
  "filename_pattern env filename digits \<longleftrightarrow>
     (\<exists>pre ext. filename = pre @ digits @ code_points ''.'' @ ext \<and> 10 \<notin> set pre \<and>
        length digits = 12 \<and> (\<forall>c \<in> set digits. decimal_digit env c \<noteq> None) \<and>
        (ext = code_points ''jpg'' \<or> ext = code_points ''png''))"

definition decimal_value :: "env \<Rightarrow> pystr \<Rightarrow> int" where
  "decimal_value env digits =
     (\<Sum>i \<leftarrow> [0..<length digits].
        int (the (decimal_digit env (digits ! i))) * 10 ^ (length digits - Suc i))"

subsection \<open>Generators in sequence, and a cache that only grows\<close>

text \<open>
  \<open>chain\<close> is what running generators one after the other yields: the first that
  raises ends the sequence. \<open>cache_grown self env s s'\<close> says that \<open>s'\<close> is
  \<open>s\<close> after some reads by the reader \<open>self\<close>: the files are the same, and the cache
  has, besides the documents of \<open>s\<close>, only documents this reader writes for annotation
  files of \<open>s\<close>.
\<close>

fun chain :: "'a generator list \<Rightarrow> 'a generator" where
  "chain [] = ([], None)"
| "chain ((xs, Some e) # gs) = (xs, Some e)"
| "chain ((xs, None) # gs) = (case chain gs of (ys, e) \<Rightarrow> (xs @ ys, e))"

definition cache_grown :: "VQAv2Reader \<Rightarrow> env \<Rightarrow> fs \<Rightarrow> fs \<Rightarrow> bool" where
  "cache_grown self env s s' \<longleftrightarrow>
     annotation_files s' = annotation_files s \<and>
     question_files s' = question_files s \<and>
     (\<forall>key. cache s' key = cache s key \<or>
        (cache s key = None \<and>
         (\<exists>anns. annotation_files s (snd key) = Some anns \<and>
            cache s' key = Some (json_dump (py_of_answers (compute_answers self env anns))))))"

subsection \<open>Concrete inputs\<close>

text \<open>
  A small environment and two readers, used to run the definitions: the tokenizer splits
  nothing, answers are preprocessed to themselves, no slicing, no sharding, the features
  of an image are the length of its path, and the Unicode table has the Arabic-Indic digits
  (U+0660 to U+0669). The file system holds the unit-test split with
  three questions and two annotations.
\<close>

definition env0 :: env where
  "env0 = \<lparr> tokenize = (\<lambda>q. [q]), preprocess_answer = (\<lambda>a. a),
            get_data_slice = (\<lambda>n. (\<lambda>qs. qs, n)), shard_iterable = (\<lambda>qs. qs),
            cached_path = (\<lambda>p. p), featurize = (\<lambda>c p. ([[real (length p)]], [[0, 0, 1, 1]], None, None)),
            unicode_decimal = (\<lambda>c. if 1632 \<le> c \<and> c \<le> 1641 then Some (c - 1632) else None) \<rparr>"

definition reader0 :: VQAv2Reader where
  "reader0 = \<lparr> answer_vocab = Some {''yes'', ''no''}, images = ByName [],
               produce_featurized_images = False, multiple_answers_per_question = True \<rparr>"

definition fs0 :: fs where
  "fs0 = \<lparr>
     annotation_files = [''test_fixtures/vision/vqav2/annotations.json'' \<mapsto>
       [\<lparr> a_question_id = 1,
           a_answers = [\<lparr> k_answer = ''yes'' \<rparr>, \<lparr> k_answer = ''no'' \<rparr>, \<lparr> k_answer = ''yes'' \<rparr>],
           a_multiple_choice_answer = ''yes'' \<rparr>,
        \<lparr> a_question_id = 2,
           a_answers = [\<lparr> k_answer = ''blue'' \<rparr>, \<lparr> k_answer = ''teal'' \<rparr>],
           a_multiple_choice_answer = ''blue'' \<rparr>]],
     question_files = [''test_fixtures/vision/vqav2/questions.json'' \<mapsto>
       [\<lparr> k_question_id = 1, k_image_id = 1, k_question = ''is it?'' \<rparr>,
        \<lparr> k_question_id = 2, k_image_id = 2, k_question = ''what color?'' \<rparr>,
        \<lparr> k_question_id = 3, k_image_id = 1, k_question = ''why?'' \<rparr>]],
     cache = Map.empty \<rparr>"

definition split0 :: Split where
  "split0 = \<lparr> annotations = Some ''test_fixtures/vision/vqav2/annotations.json'',
        questions = ''test_fixtures/vision/vqav2/questions.json'' \<rparr>"

definition answers0 :: answers where
  "answers0 = [(''1'', [(''yes'', 2), (''no'', 1)]), (''2'', [(''blue'', 1), (''teal'', 1)])]"

definition base0 :: VisionReader where
  "base0 = \<lparr> vr_images = [], vr_produce_featurized_images = False \<rparr>"

definition base1 :: VisionReader where
  "base1 = \<lparr> vr_images =
       [(code_points ''COCO_val2014_000000000001.jpg'', ''/data/val2014/COCO_val2014_000000000001.jpg''),
        (code_points ''README.txt'', ''/data/README.txt''),
        (code_points ''abstract_v002_val2015_000000000002.png'',
         ''/data/scene/abstract_v002_val2015_000000000002.png'')],
     vr_produce_featurized_images = True \<rparr>"

definition reader1 :: VQAv2Reader where
  "reader1 = \<lparr> answer_vocab = Some {''yes'', ''no''},
       images = ById [(Some 1, ''/data/val2014/COCO_val2014_000000000001.jpg''),
                      (Some 2, ''/data/scene/abstract_v002_val2015_000000000002.png'')],
       produce_featurized_images = True, multiple_answers_per_question = True \<rparr>"



text \<open>
  An image directory with two matching names, a name whose last digit is the Arabic-Indic
  digit one, and three names the pattern rejects; and the reader built on it.
\<close>

definition base2 :: VisionReader where
  "base2 = \<lparr> vr_images =
       [(code_points ''COCO_val2014_000000581929.jpg'', ''/data/val2014/COCO_val2014_000000581929.jpg''),
        (code_points ''README.txt'', ''/data/README.txt''),
        (code_points ''abstract_v002_train2015_000000000042.png'', ''/data/scene/42.png''),
        (code_points ''000000000007.jpeg'', ''/data/000000000007.jpeg''),
        (code_points ''00000000000'' @ [1633] @ code_points ''.jpg'', ''/data/arabic-indic-one.jpg''),
        (code_points ''12345678901.jpg'', ''/data/12345678901.jpg'')],
     vr_produce_featurized_images = True \<rparr>"

definition reader2 :: VQAv2Reader where
  "reader2 = \<lparr> answer_vocab = None,
       images = ById [(Some 581929, ''/data/val2014/COCO_val2014_000000581929.jpg''),
                      (Some 42, ''/data/scene/42.png''),
                      (Some 1, ''/data/arabic-indic-one.jpg'')],
       produce_featurized_images = True, multiple_answers_per_question = False \<rparr>"

section \<open>Beam search and greedy decoding\<close>

text \<open>
  The sources hold only the test \<^verbatim>\<open>test_greedy_decode_matches_beam_search\<close>. It
  builds \<^verbatim>\<open>BeamSearch(end_index, max_steps, beam_size=1)\<close>, runs it and the model's
  \<^verbatim>\<open>_forward_loop\<close> from the same start state over the same
  \<^verbatim>\<open>take_step\<close>, passes both outputs through
  \<^verbatim>\<open>make_output_human_readable\<close> and compares the \<^verbatim>\<open>predicted_tokens\<close>.
  The beam search, the decoding loop and the conversion to tokens are library code outside
  the sources; they are modelled from the glossary of the specification ("a heuristic
  search procedure over sequence-generation model outputs, retaining the top-k partial
  hypotheses at each decoding step") and from the claim ("stepwise argmax over the same
  take_step function"). Neither says which of two candidates with equal scores is
  retained, nor which of two classes with equal log-probabilities the argmax is, so both
  choices are parameters of the model. A step function maps the last predicted token and
  the decoder state to the log-probabilities of the classes and the next state;
  log-probabilities are exact reals; one sequence of the batch is modelled.
\<close>

type_synonym 'st take_step = "nat \<Rightarrow> 'st \<Rightarrow> real list \<times> 'st"
type_synonym 'st hypothesis = "nat list \<times> real \<times> 'st"
type_synonym 'st tie_order = "'st hypothesis list \<Rightarrow> 'st hypothesis list"

text \<open>
  Modelled from the spec: the order in which candidates with equal scores are considered
  is not fixed by the specification; it is any rearrangement of the candidates, each
  candidate occurring as often as before (the beam search is not in the sources).
\<close>

definition rearranges :: "'st tie_order \<Rightarrow> bool" where
  "rearranges tie_order \<longleftrightarrow>
     (\<forall>candidates h. count_list (tie_order candidates) h = count_list candidates h)"

text \<open>
  Modelled from the spec: an argmax gives the index of a class whose log-probability no
  other class exceeds; which one of several maximal classes is not fixed (the model's
  \<^verbatim>\<open>_forward_loop\<close> is not in the sources).
\<close>

definition picks_maximum :: "(real list \<Rightarrow> nat) \<Rightarrow> bool" where
  "picks_maximum pick \<longleftrightarrow>
     (\<forall>log_probs. log_probs \<noteq> [] \<longrightarrow>
        pick log_probs < length log_probs \<and>
        (\<forall>c < length log_probs. log_probs ! c \<le> log_probs ! pick log_probs))"

text \<open>
  One class has a log-probability strictly above that of every other class.
\<close>

definition single_maximum :: "real list \<Rightarrow> bool" where
  "single_maximum log_probs \<longleftrightarrow>
     (\<exists>c \<in> set [0..<length log_probs]. \<forall>c' \<in> set [0..<length log_probs].
        c' \<noteq> c \<longrightarrow> log_probs ! c' < log_probs ! c)"

text \<open>
  Modelled from the spec: the token fed to the next step, the start token for the empty
  hypothesis (the beam search is not in the sources).
\<close>

definition last_prediction :: "nat \<Rightarrow> nat list \<Rightarrow> nat" where
  "last_prediction start_prediction tokens =
     (if tokens = [] then start_prediction else last tokens)"

text \<open>
  Modelled from the spec: a hypothesis has ended when its last predicted token is the end
  symbol the test passes to the beam search (the beam search is not in the sources).
\<close>

definition ended :: "nat \<Rightarrow> 'st hypothesis \<Rightarrow> bool" where
  "ended end_index h \<longleftrightarrow> fst h \<noteq> [] \<and> last (fst h) = end_index"

text \<open>
  Modelled from the spec: the candidates of one decoding step for a partial hypothesis,
  one for each class, scored by the sum of the log-probabilities; a hypothesis that has
  ended is continued by the end symbol alone, at its own score (the beam search is not in
  the sources).
\<close>

definition expand ::
  "'st take_step \<Rightarrow> nat \<Rightarrow> nat \<Rightarrow> 'st hypothesis \<Rightarrow> 'st hypothesis list"
where
  "expand take_step start_prediction end_index h =
     (case h of (tokens, score, state) \<Rightarrow>
        (case take_step (last_prediction start_prediction tokens) state of
           (log_probs, state') \<Rightarrow>
             if ended end_index h then [(tokens @ [end_index], score, state')]
             else map (\<lambda>(c, p). (tokens @ [c], score + p, state'))
                    (enumerate 0 log_probs)))"

text \<open>
  Modelled from the spec: the candidates of one decoding step, those of every hypothesis
  of the beam (the beam search is not in the sources).
\<close>

definition candidates ::
  "'st take_step \<Rightarrow> nat \<Rightarrow> nat \<Rightarrow> 'st hypothesis list \<Rightarrow> 'st hypothesis list"
where
  "candidates take_step start_prediction end_index beam =
     concat (map (expand take_step start_prediction end_index) beam)"

text \<open>
  Modelled from the spec: retaining the top-k hypotheses, the first k by descending score,
  candidates with equal scores in the order \<^verbatim>\<open>tie_order\<close> puts them in (the beam
  search is not in the sources).
\<close>

definition top_k :: "'st tie_order \<Rightarrow> nat \<Rightarrow> 'st hypothesis list \<Rightarrow> 'st hypothesis list" where
  "top_k tie_order k hs = take k (sort_key (\<lambda>h. - fst (snd h)) (tie_order hs))"

text \<open>
  Modelled from the spec: the decoding steps of the beam search, each retaining the top-k
  candidates of the hypotheses of the beam; the search stops before \<^verbatim>\<open>max_steps\<close>
  once every hypothesis of the beam has ended (the beam search is not in the sources).
\<close>

fun beam_steps ::
  "'st tie_order \<Rightarrow> nat \<Rightarrow> nat \<Rightarrow> 'st take_step \<Rightarrow> nat \<Rightarrow> nat \<Rightarrow> 'st hypothesis list \<Rightarrow>
     'st hypothesis list"
where
  "beam_steps tie_order end_index beam_size take_step start_prediction 0 beam = beam"
| "beam_steps tie_order end_index beam_size take_step start_prediction (Suc n) beam =
     (if list_all (ended end_index) beam then beam
      else beam_steps tie_order end_index beam_size take_step start_prediction n
             (top_k tie_order beam_size
                (candidates take_step start_prediction end_index beam)))"

text \<open>
  Modelled from the spec: the beam after at most n decoding steps from the start token
  (the beam search is not in the sources).
\<close>

definition beam_after ::
  "'st tie_order \<Rightarrow> nat \<Rightarrow> nat \<Rightarrow> 'st take_step \<Rightarrow> nat \<Rightarrow> 'st \<Rightarrow> nat \<Rightarrow> 'st hypothesis list"
where
  "beam_after tie_order end_index beam_size take_step start_prediction state n =
     beam_steps tie_order end_index beam_size take_step start_prediction n [([], 0, state)]"

text \<open>
  Modelled from the spec: beam search from the start token, returning the token sequences
  of the final beam, best first (the beam search is not in the sources).
\<close>

definition beam_search ::
  "'st tie_order \<Rightarrow> nat \<Rightarrow> nat \<Rightarrow> nat \<Rightarrow> 'st take_step \<Rightarrow> nat \<Rightarrow> 'st \<Rightarrow> nat list list"
where
  "beam_search tie_order end_index beam_size max_steps take_step start_prediction state =
     map fst (beam_after tie_order end_index beam_size take_step start_prediction state
                max_steps)"

text \<open>
  Modelled from the spec: the greedy decoding loop, \<^verbatim>\<open>max_steps\<close> steps each
  predicting the argmax of the log-probabilities and feeding it to the next step; the
  loop does not look at the end symbol (the model's \<^verbatim>\<open>_forward_loop\<close> is not in
  the sources).
\<close>

fun greedy_loop ::
  "(real list \<Rightarrow> nat) \<Rightarrow> 'st take_step \<Rightarrow> nat \<Rightarrow> nat \<Rightarrow> 'st \<Rightarrow> nat list"
where
  "greedy_loop pick take_step 0 last_predictions state = []"
| "greedy_loop pick take_step (Suc n) last_predictions state =
     (case take_step last_predictions state of
        (log_probs, state') \<Rightarrow>
          (let predicted = pick log_probs
           in predicted # greedy_loop pick take_step n predicted state'))"

text \<open>
  Modelled from the spec: greedy decoding from the start token (the model's
  \<^verbatim>\<open>_forward_loop\<close> is not in the sources).
\<close>

definition greedy_decode ::
  "(real list \<Rightarrow> nat) \<Rightarrow> nat \<Rightarrow> 'st take_step \<Rightarrow> nat \<Rightarrow> 'st \<Rightarrow> nat list"
where
  "greedy_decode pick max_steps take_step start_prediction state =
     greedy_loop pick take_step max_steps start_prediction state"

text \<open>
  Modelled from the spec: the \<^verbatim>\<open>predicted_tokens\<close> the test compares, the indices
  before the first end symbol, each looked up in the vocabulary (the model's
  \<^verbatim>\<open>make_output_human_readable\<close> is not in the sources; the vocabulary is a
  parameter).
\<close>

definition predicted_tokens :: "(nat \<Rightarrow> 'tok) \<Rightarrow> nat \<Rightarrow> nat list \<Rightarrow> 'tok list" where
  "predicted_tokens get_token_from_index end_index indices =
     map get_token_from_index (takeWhile (\<lambda>x. x \<noteq> end_index) indices)"

text \<open>
  At every step of the greedy path, up to the step that predicts the end symbol, a single
  class has the maximal log-probability.
\<close>

fun untied_path ::
  "(real list \<Rightarrow> nat) \<Rightarrow> 'st take_step \<Rightarrow> nat \<Rightarrow> nat \<Rightarrow> nat \<Rightarrow> 'st \<Rightarrow> bool"
where
  "untied_path pick take_step end_index 0 last_predictions state = True"
| "untied_path pick take_step end_index (Suc n) last_predictions state =
     (case take_step last_predictions state of
        (log_probs, state') \<Rightarrow>
          single_maximum log_probs \<and>
          (pick log_probs = end_index \<or>
           untied_path pick take_step end_index n (pick log_probs) state'))"

text \<open>
  Inputs to run both on. Two ways to settle ties: an argmax that takes the first maximal
  class, and top-k over the candidates as they come or in reverse. Two step functions
  whose state counts the steps: \<^verbatim>\<open>step0\<close> has four classes, and at its second step
  classes 1 and 2 tie for the maximum; \<^verbatim>\<open>step1\<close> has three classes with distinct
  log-probabilities for five steps, predicts the end symbol 0 at the fifth, and gives
  equal log-probabilities afterwards. A vocabulary of three tokens.
\<close>

fun argmax_first :: "real list \<Rightarrow> nat" where
  "argmax_first [] = 0"
| "argmax_first (p # ps) =
     fst (foldl (\<lambda>best cand. if snd best < snd cand then cand else best) (0, p)
            (enumerate 1 ps))"

definition keep_order :: "nat tie_order" where
  "keep_order hs = hs"

definition reverse_order :: "nat tie_order" where
  "reverse_order hs = rev hs"

definition step0 :: "nat take_step" where
  "step0 last_predictions state = ([0, 1, real state, 1 / 2], Suc state)"

definition step1 :: "nat take_step" where
  "step1 last_predictions state =
     (if state < 5
      then [real ((last_predictions + state) mod 3),
            real ((last_predictions + state + 1) mod 3),
            real ((last_predictions + state + 2) mod 3)]
      else [1, 1, 1], Suc state)"

definition vocab0 :: "nat \<Rightarrow> string" where
  "vocab0 i = (if i = 0 then ''@end@'' else if i = 1 then ''yes'' else if i = 2 then ''no''
               else ''@@UNKNOWN@@'')"

section \<open>Properties\<close>

subsection \<open>Scores\<close>

text \<open>
  C1. For every non-negative count, \<open>get_score count\<close> is \<open>min 1 (count / 3)\<close>: it is 0
  at 0, it does not decrease when the count grows, it is 1 exactly from 3 on, and it
  stays between 0 and 1.
\<close>

theorem get_score_spec:
  "0 \<le> count \<Longrightarrow>
     get_score count = min 1 (real_of_int count / 3) \<and>
     get_score 0 = 0 \<and>
     (\<forall>c'. count \<le> c' \<longrightarrow> get_score count \<le> get_score c') \<and>
     (get_score count = 1 \<longleftrightarrow> 3 \<le> count) \<and>
     0 \<le> get_score count \<and> get_score count \<le> 1"
  by (simp add: get_score_def min_def)

theorem get_score_spec_witness:
  "get_score 2 = 2 / 3 \<and> get_score 0 = 0 \<and> get_score 2 \<le> get_score 7 \<and>
   get_score 2 \<noteq> 1 \<and> get_score 7 = 1"
  using get_score_spec [of 2] get_score_spec [of 7] by (simp add: get_score_def)

subsection \<open>Labels and weights of an instance\<close>

lemma collect_answers_eq:
  "collect_answers self counts =
     (map fst (kept_answers self counts), map (\<lambda>(a, c). get_score c) (kept_answers self counts))"
  by (induction counts)
    (auto simp: kept_answers_def passes_vocab_def split: option.splits prod.splits)

lemma text_to_instance_None:
  "text_to_instance self env question img (Some counts) uc = None \<longleftrightarrow>
     kept_answers self counts = []"
  by (simp add: text_to_instance_def collect_answers_eq Let_def split: prod.splits option.splits)

lemma text_to_instance_Some:
  "text_to_instance self env question img (Some counts) uc = Some inst \<Longrightarrow>
     labels inst = Some (map fst (kept_answers self counts)) \<and>
     label_weights inst = Some (map (\<lambda>(a, c). get_score c) (kept_answers self counts))"
  by (auto simp add: text_to_instance_def collect_answers_eq Let_def
      split: prod.splits option.splits if_splits)

text \<open>
  C3. When \<open>text_to_instance\<close> returns an instance for given answer counts, its labels
  are the answers that pass the vocabulary filter, in the order of the mapping, and its
  label weights have the same length, the i-th weight being the score of the count of the
  i-th answer kept.
\<close>

theorem text_to_instance_labels:
  assumes "text_to_instance self env question img (Some counts) use_cache = Some inst"
  shows "labels inst = Some (map fst (kept_answers self counts)) \<and>
         label_weights inst = Some (map (\<lambda>(a, c). get_score c) (kept_answers self counts)) \<and>
         length (the (label_weights inst)) = length (the (labels inst)) \<and>
         (\<forall>i < length (kept_answers self counts).
            the (labels inst) ! i = fst (kept_answers self counts ! i) \<and>
            the (label_weights inst) ! i = get_score (snd (kept_answers self counts ! i)))"
proof -
  from assms have l: "labels inst = Some (map fst (kept_answers self counts))"
    and w: "label_weights inst = Some (map (\<lambda>(a, c). get_score c) (kept_answers self counts))"
    by (simp_all add: text_to_instance_Some)
  show ?thesis
    by (simp add: l w case_prod_beta)
qed

theorem text_to_instance_labels_witness:
  "labels (the (text_to_instance reader0 env0 ''what?'' None
      (Some [(''yes'', 2), (''two'', 9), (''no'', 5)]) True)) = Some [''yes'', ''no''] \<and>
   label_weights (the (text_to_instance reader0 env0 ''what?'' None
      (Some [(''yes'', 2), (''two'', 9), (''no'', 5)]) True)) = Some [2 / 3, 1]"
proof -
  let ?c = "[(''yes'', 2), (''two'', 9), (''no'', 5)] :: answer_counts"
  have k: "kept_answers reader0 ?c = [(''yes'', 2), (''no'', 5)]"
    by (simp add: kept_answers_def passes_vocab_def reader0_def)
  have "text_to_instance reader0 env0 ''what?'' None (Some ?c) True \<noteq> None"
    by (simp add: text_to_instance_None k)
  then obtain inst where i: "text_to_instance reader0 env0 ''what?'' None (Some ?c) True = Some inst"
    by blast
  from text_to_instance_labels [OF i] show ?thesis
    by (simp add: i k get_score_def)
qed

subsection \<open>Unrecognized splits\<close>

lemma read_loop_filter:
  "read_loop self env answers zipped =
     map (\<lambda>(q, im). the (text_to_instance self env (k_question q) (map_option Processed im)
            (map_of answers (str_int (k_question_id q))) True))
       (filter (\<lambda>(q, im). text_to_instance self env (k_question q) (map_option Processed im)
            (map_of answers (str_int (k_question_id q))) True \<noteq> None) zipped)"
  by (induction zipped) (auto simp: Let_def split: option.splits)

lemma text_to_instance_no_answers:
  "text_to_instance self env question img None uc \<noteq> None"
  by (simp add: text_to_instance_def Let_def split: option.splits prod.splits)

lemma read_prepare_unrecognized:
  assumes "snd (get_data_slice env name) \<notin> fst ` set splits"
  shows "read_prepare self env name s =
           (Inl (ValueError (''Unrecognized split: '' @ snd (get_data_slice env name) @ ''.'')), s)"
proof -
  obtain sl nm where g: "get_data_slice env name = (sl, nm)"
    by (cases "get_data_slice env name")
  have "nm \<notin> fst ` set splits"
    using assms g by simp
  then have "map_of splits nm = None"
    by (simp only: map_of_eq_None_iff not_False_eq_True)
  then show ?thesis
    using g by (simp add: read_prepare_def)
qed

lemma splits_names:
  "fst ` set splits = {''balanced_real_train'', ''balanced_real_val'', ''balanced_real_test'',
        ''balanced_bas_train'', ''balanced_bas_val'', ''abstract_scenes_train'',
        ''abstract_scenes_val'', ''abstract_scenes_test'', ''unittest''}"
  by (simp add: splits_def)

text \<open>
  C8. A split name that, once \<^verbatim>\<open>get_data_slice\<close> has taken the slice off, is none
  of the nine names of the table makes \<^verbatim>\<open>_read\<close> raise \<^verbatim>\<open>ValueError\<close> with
  nothing yielded (and no file touched).
\<close>

theorem read_unrecognized_split:
  assumes "snd (get_data_slice env split_name) \<notin>
             {''balanced_real_train'', ''balanced_real_val'', ''balanced_real_test'',
              ''balanced_bas_train'', ''balanced_bas_val'', ''abstract_scenes_train'',
              ''abstract_scenes_val'', ''abstract_scenes_test'', ''unittest''}"
  shows "\<exists>msg. read self env (SplitName split_name) s = (([], Some (ValueError msg)), s)"
proof -
  have "snd (get_data_slice env split_name) \<notin> fst ` set splits"
    using assms unfolding splits_names .
  then show ?thesis
    by (simp add: read_def read_split_def read_prepare_unrecognized)
qed

theorem read_unrecognized_split_witness:
  "\<exists>msg. read reader0 env0 (SplitName ''balanced_real_dev'')
          \<lparr> annotation_files = Map.empty, question_files = Map.empty, cache = Map.empty \<rparr> =
        (([], Some (ValueError msg)),
         \<lparr> annotation_files = Map.empty, question_files = Map.empty, cache = Map.empty \<rparr>)"
  by (rule read_unrecognized_split) (simp add: env0_def)

subsection \<open>Running the reader on the concrete inputs\<close>

lemma env0_simps:
  "get_data_slice env0 n = (\<lambda>qs. qs, n)" "cached_path env0 p = p"
  "shard_iterable env0 qs = qs" "preprocess_answer env0 a = a" "tokenize env0 q = [q]"
  "featurize env0 c p = ([[real (length p)]], [[0, 0, 1, 1]], None, None)"
  by (simp_all add: env0_def)

lemma splits_unittest: "map_of splits ''unittest'' = Some split0"
  by (simp add: splits_def split0_def)

lemma str_int_small: "str_int 1 = ''1''" "str_int 2 = ''2''" "str_int 3 = ''3''"
  by (simp_all add: str_int_def str_nat.simps)

lemma compute_answers0:
  "multiple_answers_per_question r \<Longrightarrow>
   compute_answers r env0
      [\<lparr> a_question_id = 1,
           a_answers = [\<lparr> k_answer = ''yes'' \<rparr>, \<lparr> k_answer = ''no'' \<rparr>, \<lparr> k_answer = ''yes'' \<rparr>],
           a_multiple_choice_answer = ''yes'' \<rparr>,
        \<lparr> a_question_id = 2,
           a_answers = [\<lparr> k_answer = ''blue'' \<rparr>, \<lparr> k_answer = ''teal'' \<rparr>],
           a_multiple_choice_answer = ''blue'' \<rparr>] = answers0"
  by (simp add: compute_answers_def record_answer_counts_def counter_add_def env0_simps
      str_int_small answers0_def)

lemma get_answers0:
  "multiple_answers_per_question r \<Longrightarrow>
     fst (get_answers_by_question_id r env0 split0 fs0) = Inr answers0"
  by (simp add: get_answers_by_question_id_def split0_def env0_simps fs0_def compute_answers0 Let_def)

lemma questions0:
  "question_files (snd (get_answers_by_question_id r env0 split0 fs0))
      (cached_path env0 (questions split0)) =
   Some [\<lparr> k_question_id = 1, k_image_id = 1, k_question = ''is it?'' \<rparr>,
        \<lparr> k_question_id = 2, k_image_id = 2, k_question = ''what color?'' \<rparr>,
        \<lparr> k_question_id = 3, k_image_id = 1, k_question = ''why?'' \<rparr>]"
  by (simp add: get_answers_by_question_id_def split0_def env0_simps fs0_def Let_def)

subsection \<open>Image ids from file names\<close>

lemma find_unique:
  assumes "\<And>x. x \<in> set xs \<Longrightarrow> P x \<Longrightarrow> x = k"
  shows "List.find P xs = (if k \<in> set xs \<and> P k then Some k else None)"
  using assms by (induction xs) auto

lemma filename_re_tail_length:
  "k \<le> length filename \<Longrightarrow> filename_re_tail env (drop k filename) \<Longrightarrow>
     k = length filename - 16"
  by (auto simp: filename_re_tail_def)

lemma filename_re_fullmatch_eq:
  "filename_re_fullmatch env filename =
     (if 10 \<notin> set (take (length filename - 16) filename) \<and>
         filename_re_tail env (drop (length filename - 16) filename)
      then Some (take 12 (drop (length filename - 16) filename)) else None)"
proof -
  let ?P = "\<lambda>k. 10 \<notin> set (take k filename) \<and> filename_re_tail env (drop k filename)"
  have fe: "List.find ?P (rev [0..<Suc (length filename)]) =
          (if length filename - 16 \<in> set (rev [0..<Suc (length filename)]) \<and> ?P (length filename - 16)
           then Some (length filename - 16) else None)"
  proof (rule find_unique)
    fix x
    assume "x \<in> set (rev [0..<Suc (length filename)])" and "?P x"
    then have "x \<le> length filename" and "filename_re_tail env (drop x filename)"
      by auto
    then show "x = length filename - 16"
      by (rule filename_re_tail_length)
  qed
  show ?thesis
    unfolding filename_re_fullmatch_def fe by auto
qed

lemma code_points_ext:
  "code_points ''.jpg'' = code_points ''.'' @ code_points ''jpg''"
  "code_points ''.png'' = code_points ''.'' @ code_points ''png''"
  "length (code_points ''.'') = 1" "length (code_points ''jpg'') = 3"
  "length (code_points ''png'') = 3"
  by (simp_all add: code_points_def)

lemma filename_re_fullmatch_Some:
  "filename_re_fullmatch env filename = Some digits \<longleftrightarrow> filename_pattern env filename digits"
proof
  assume "filename_re_fullmatch env filename = Some digits"
  then have n: "10 \<notin> set (take (length filename - 16) filename)"
    and t: "filename_re_tail env (drop (length filename - 16) filename)"
    and d: "digits = take 12 (drop (length filename - 16) filename)"
    by (auto simp: filename_re_fullmatch_eq split: if_splits)
  let ?t = "drop (length filename - 16) filename"
  have f: "filename = take (length filename - 16) filename @ ?t" by simp
  have s: "?t = take 12 ?t @ drop 12 ?t" by (simp only: append_take_drop_id)
  from t have "drop 12 ?t = code_points ''.jpg'' \<or> drop 12 ?t = code_points ''.png''"
    by (simp add: filename_re_tail_def)
  then obtain ext where x: "drop 12 ?t = code_points ''.'' @ ext"
    and e: "ext = code_points ''jpg'' \<or> ext = code_points ''png''"
    using code_points_ext(1,2) by metis
  have l: "length (take 12 ?t) = 12" and g: "list_all (is_digit env) (take 12 ?t)"
    using t by (simp_all add: filename_re_tail_def)
  have "filename = take (length filename - 16) filename @ take 12 ?t @ code_points ''.'' @ ext"
    using f s x by metis
  moreover have "\<forall>c \<in> set (take 12 ?t). decimal_digit env c \<noteq> None"
    using g by (simp add: list_all_iff is_digit_def)
  ultimately show "filename_pattern env filename digits"
    unfolding filename_pattern_def d using n l e by blast
next
  assume "filename_pattern env filename digits"
  then obtain pre ext where f: "filename = pre @ digits @ code_points ''.'' @ ext"
    and n: "10 \<notin> set pre" and l: "length digits = 12"
    and dg: "\<forall>c \<in> set digits. decimal_digit env c \<noteq> None"
    and e: "ext = code_points ''jpg'' \<or> ext = code_points ''png''"
    by (auto simp: filename_pattern_def)
  have le: "length ext = 3" using e code_points_ext(4,5) by auto
  have len: "length filename - 16 = length pre"
    using f l le by (simp add: code_points_ext(3))
  have tk: "take (length filename - 16) filename = pre"
    and dr: "drop (length filename - 16) filename = digits @ code_points ''.'' @ ext"
    unfolding len using f by simp_all
  have "code_points ''.'' @ ext = code_points ''.jpg'' \<or>
        code_points ''.'' @ ext = code_points ''.png''"
    using e code_points_ext(1,2) by auto
  then have "filename_re_tail env (digits @ code_points ''.'' @ ext)"
    using l dg le by (simp add: filename_re_tail_def list_all_iff is_digit_def code_points_ext(3))
  then show "filename_re_fullmatch env filename = Some digits"
    using n l by (simp add: filename_re_fullmatch_eq tk dr)
qed

lemma upt_Suc_shift: "[0..<Suc n] = 0 # map Suc [0..<n]"
  by (simp only: map_Suc_upt upt_conv_Cons [of 0 "Suc n"] zero_less_Suc)

lemma foldl_digits:
  "foldl (\<lambda>a c. 10 * a + v c) a s =
     a * 10 ^ length s + (\<Sum>i \<leftarrow> [0..<length s]. v (s ! i) * 10 ^ (length s - Suc i) :: int)"
proof (induction s arbitrary: a)
  case Nil
  then show ?case by simp
next
  case (Cons c s)
  have h: "(\<Sum>i \<leftarrow> [0..<length (c # s)]. v ((c # s) ! i) * 10 ^ (length (c # s) - Suc i)) =
        v c * 10 ^ length s + (\<Sum>i \<leftarrow> [0..<length s]. v (s ! i) * 10 ^ (length s - Suc i))"
    by (simp add: upt_Suc_shift comp_def del: upt_Suc)
  have "foldl (\<lambda>a c. 10 * a + v c) a (c # s) = foldl (\<lambda>a c. 10 * a + v c) (10 * a + v c) s"
    by simp
  also have "\<dots> = (10 * a + v c) * 10 ^ length s +
        (\<Sum>i \<leftarrow> [0..<length s]. v (s ! i) * 10 ^ (length s - Suc i))"
    by (rule Cons.IH)
  also have "\<dots> = a * 10 ^ length (c # s) +
        (v c * 10 ^ length s + (\<Sum>i \<leftarrow> [0..<length s]. v (s ! i) * 10 ^ (length s - Suc i)))"
    by (simp add: algebra_simps)
  finally show ?case
    unfolding h .
qed

lemma int_of_digits_value: "int_of_digits env digits = decimal_value env digits"
  using foldl_digits [of "\<lambda>c. int (the (decimal_digit env c))" 0 digits]
  by (simp add: int_of_digits_def decimal_value_def)

lemma id_from_filename_Some:
  "id_from_filename env filename = Some i \<longleftrightarrow>
     (\<exists>digits. filename_pattern env filename digits \<and> i = decimal_value env digits)"
  by (auto simp: id_from_filename_def filename_re_fullmatch_Some [symmetric] int_of_digits_value
      split: option.splits)

lemma id_from_filename_None:
  "id_from_filename env filename = None \<longleftrightarrow> (\<forall>digits. \<not> filename_pattern env filename digits)"
  by (auto simp: id_from_filename_def filename_re_fullmatch_Some [symmetric] split: option.splits)

lemma foldl_update_keys:
  "fst ` set (foldl (\<lambda>d (name, full_path). AList.update (f name) full_path d) d0 ims) =
     fst ` set d0 \<union> f ` fst ` set ims"
proof (induction ims arbitrary: d0)
  case Nil
  then show ?case by simp
next
  case (Cons x ims)
  obtain n q where x: "x = (n, q)" by (cases x)
  have "fst ` set (foldl (\<lambda>d (name, full_path). AList.update (f name) full_path d)
          (AList.update (f n) q d0) ims) =
        fst ` set (AList.update (f n) q d0) \<union> f ` fst ` set ims"
    by (rule Cons.IH)
  also have "\<dots> = ({f n} \<union> fst ` set d0) \<union> f ` fst ` set ims"
    by (simp only: dom_update)
  finally show ?case
    by (simp add: x Un_commute Un_left_commute insert_commute)
qed

lemma foldl_update_distinct:
  "distinct (map fst d0) \<Longrightarrow>
     distinct (map fst (foldl (\<lambda>d (name, full_path). AList.update (f name) full_path d) d0 ims))"
  by (induction ims arbitrary: d0) (auto simp: distinct_update split: prod.splits)

lemma foldl_update_values:
  "map_of (foldl (\<lambda>d (name, full_path). AList.update (f name) full_path d) d0 ims) k = Some p \<Longrightarrow>
     map_of d0 k = Some p \<or> (\<exists>name. (name, p) \<in> set ims \<and> f name = k)"
proof (induction ims arbitrary: d0)
  case Nil
  then show ?case by simp
next
  case (Cons x ims)
  obtain n q where x: "x = (n, q)" by (cases x)
  from Cons.prems have "map_of (foldl (\<lambda>d (name, full_path). AList.update (f name) full_path d)
          (AList.update (f n) q d0) ims) k = Some p"
    by (simp add: x)
  from Cons.IH [OF this]
  have "map_of (AList.update (f n) q d0) k = Some p \<or> (\<exists>name. (name, p) \<in> set ims \<and> f name = k)" .
  then show ?case
    by (auto simp: x update_conv' split: if_splits)
qed

lemma normalize_images_keys:
  "fst ` set (normalize_images env ims) = id_from_filename env ` fst ` set ims - {None}"
proof -
  let ?d = "foldl (\<lambda>d (name, full_path). AList.update (id_from_filename env name) full_path d) [] ims"
  have "set (map fst (AList.delete None ?d)) = set (map fst ?d) - {None}"
    by (simp only: delete_keys set_removeAll)
  then show ?thesis
    using foldl_update_keys [of "id_from_filename env" "[]" ims]
    by (simp add: normalize_images_def)
qed

lemma normalize_images_distinct: "distinct (map fst (normalize_images env ims))"
  unfolding normalize_images_def
  by (rule distinct_delete) (rule foldl_update_distinct, simp)

lemma normalize_images_entry:
  assumes "(k, p) \<in> set (normalize_images env ims)"
  shows "\<exists>name i. (name, p) \<in> set ims \<and> id_from_filename env name = Some i \<and> k = Some i"
proof -
  let ?d = "foldl (\<lambda>d (name, full_path). AList.update (id_from_filename env name) full_path d) [] ims"
  have "map_of (normalize_images env ims) k = Some p"
    using assms normalize_images_distinct by simp
  then have m: "((map_of ?d)(None := None)) k = Some p"
    by (simp add: normalize_images_def delete_conv')
  then have k: "k \<noteq> None" and "map_of ?d k = Some p"
    by (auto split: if_splits)
  then obtain name where "(name, p) \<in> set ims" "id_from_filename env name = k"
    using foldl_update_values [of "id_from_filename env" "[]" ims k p] by auto
  with k show ?thesis by auto
qed

lemma init_images:
  assumes "VQAv2Reader_init env image_dir run_featurization base vocab multiple = Inr self"
      and "produce_featurized_images self"
  shows "images self = ById (normalize_images env (vr_images base))"
  using assms by (auto simp: VQAv2Reader_init_def split: if_splits)

text \<open>
  C10. After construction with featurization, \<^verbatim>\<open>self.images\<close> is keyed by image
  ids: \<^verbatim>\<open>None\<close> is not a key, the keys are exactly the numbers that the twelve
  digits of the file names matching the pattern in full denote (so a file name that does
  not match leaves no key), and every entry holds the full path of such a file.
\<close>

theorem init_images_keys:
  assumes i: "VQAv2Reader_init env image_dir run_featurization base vocab multiple = Inr self"
      and p: "produce_featurized_images self"
  shows "\<exists>d. images self = ById d \<and>
           None \<notin> fst ` set d \<and>
           fst ` set d =
             {Some (decimal_value env digits) | name digits.
                name \<in> fst ` set (vr_images base) \<and> filename_pattern env name digits} \<and>
           (\<forall>(k, full_path) \<in> set d.
              \<exists>name digits. (name, full_path) \<in> set (vr_images base) \<and>
                 filename_pattern env name digits \<and> k = Some (decimal_value env digits))"
proof -
  let ?d = "normalize_images env (vr_images base)"
  have im: "images self = ById ?d" using i p by (rule init_images)
  have k: "fst ` set ?d = id_from_filename env ` fst ` set (vr_images base) - {None}"
    by (rule normalize_images_keys)
  have n: "None \<notin> fst ` set ?d" using k by simp
  have "id_from_filename env ` fst ` set (vr_images base) - {None} =
          {Some (decimal_value env digits) | name digits.
                name \<in> fst ` set (vr_images base) \<and> filename_pattern env name digits}" (is "?L = ?R")
  proof
    show "?L \<subseteq> ?R"
    proof
      fix x assume "x \<in> ?L"
      then obtain name i where "name \<in> fst ` set (vr_images base)"
          "id_from_filename env name = Some i" "x = Some i"
        by (metis (no_types, lifting) Diff_iff imageE insertI1 option.exhaust)
      then show "x \<in> ?R" by (auto simp: id_from_filename_Some)
    qed
    show "?R \<subseteq> ?L"
    proof
      fix x assume "x \<in> ?R"
      then obtain name digits where nd: "name \<in> fst ` set (vr_images base)"
          "filename_pattern env name digits" "x = Some (decimal_value env digits)" by blast
      then have "id_from_filename env name = x"
        using id_from_filename_Some by blast
      with nd show "x \<in> ?L" by blast
    qed
  qed
  with k have k': "fst ` set ?d = {Some (decimal_value env digits) | name digits.
                name \<in> fst ` set (vr_images base) \<and> filename_pattern env name digits}" by simp
  have v: "\<forall>(k, full_path) \<in> set ?d.
              \<exists>name digits. (name, full_path) \<in> set (vr_images base) \<and>
                 filename_pattern env name digits \<and> k = Some (decimal_value env digits)"
  proof (clarify)
    fix k full_path assume "(k, full_path) \<in> set ?d"
    from normalize_images_entry [OF this] obtain name i where
      "(name, full_path) \<in> set (vr_images base)" "id_from_filename env name = Some i" "k = Some i"
      by blast
    then show "\<exists>name digits. (name, full_path) \<in> set (vr_images base) \<and>
                 filename_pattern env name digits \<and> k = Some (decimal_value env digits)"
      using id_from_filename_Some by blast
  qed
  from im n k' v show ?thesis by blast
qed

lemma normalize_base1:
  "normalize_images env0 (vr_images base1) =
     [(Some 1, ''/data/val2014/COCO_val2014_000000000001.jpg''),
      (Some 2, ''/data/scene/abstract_v002_val2015_000000000002.png'')]"
  unfolding base1_def env0_def by code_simp

lemma init_reader1:
  "VQAv2Reader_init env0 (Some ''/data'') True base1 (Some [''yes'', ''no'']) True = Inr reader1"
  by (simp add: VQAv2Reader_init_def normalize_base1 reader1_def)
     (simp add: base1_def env0_def)

lemma normalize_base2:
  "normalize_images env0 (vr_images base2) =
     [(Some 581929, ''/data/val2014/COCO_val2014_000000581929.jpg''),
      (Some 42, ''/data/scene/42.png''),
      (Some 1, ''/data/arabic-indic-one.jpg'')]"
  unfolding base2_def env0_def by code_simp

lemma init_reader2:
  "VQAv2Reader_init env0 (Some ''/data'') True base2 None False = Inr reader2"
  by (simp add: VQAv2Reader_init_def normalize_base2 reader2_def)
     (simp add: base2_def)

theorem init_images_keys_witness:
  "VQAv2Reader_init env0 (Some ''/data'') True base2 None False = Inr reader2 \<and>
   produce_featurized_images reader2 \<and>
   (\<exists>d. images reader2 = ById d \<and> None \<notin> fst ` set d \<and>
        fst ` set d = {Some 581929, Some 42, Some 1} \<and>
        {Some (decimal_value env0 digits) | name digits.
           name \<in> fst ` set (vr_images base2) \<and> filename_pattern env0 name digits} =
          {Some 581929, Some 42, Some 1})"
proof -
  have p: "produce_featurized_images reader2" by (simp add: reader2_def)
  from init_images_keys [OF init_reader2 p] obtain d where
    d: "images reader2 = ById d" "None \<notin> fst ` set d"
    and k: "fst ` set d = {Some (decimal_value env0 digits) | name digits.
           name \<in> fst ` set (vr_images base2) \<and> filename_pattern env0 name digits}"
    by blast
  from d have "fst ` set d = {Some 581929, Some 42, Some 1}"
    by (auto simp: reader2_def)
  with d k p init_reader2 show ?thesis by auto
qed

subsection \<open>Questions, answers and images stay aligned\<close>

lemma lookup_image_paths_Inr:
  "lookup_image_paths self qds = Inr paths \<longleftrightarrow>
     map (\<lambda>q. images_get (images self) (k_image_id q)) qds = map Some paths"
proof (induction qds arbitrary: paths)
  case Nil
  then show ?case by auto
next
  case (Cons q qds)
  show ?case
  proof (cases "images_get (images self) (k_image_id q)")
    case None
    then show ?thesis by (auto simp: map_eq_Cons_conv)
  next
    case (Some p)
    show ?thesis
    proof (cases "lookup_image_paths self qds")
      case (Inl e)
      have "\<And>ps. map (\<lambda>q. images_get (images self) (k_image_id q)) qds \<noteq> map Some ps"
        using Cons.IH Inl by (metis sum.distinct(1))
      then show ?thesis using Some Inl by (auto simp: map_eq_Cons_conv)
    next
      case (Inr ps)
      then have "map (\<lambda>q. images_get (images self) (k_image_id q)) qds = map Some ps"
        using Cons.IH by simp
      then show ?thesis using Some Inr by (auto simp: map_eq_Cons_conv)
    qed
  qed
qed

lemma lookup_image_paths_Inl:
  "lookup_image_paths self qds = Inl e \<Longrightarrow>
     \<exists>q \<in> set qds. e = KeyError (k_image_id q) \<and> images_get (images self) (k_image_id q) = None"
  by (induction qds) (auto split: option.splits sum.splits)


lemma lookup_image_paths_missing:
  assumes "\<exists>q \<in> set qds. images_get (images self) (k_image_id q) = None"
  shows "\<exists>e. lookup_image_paths self qds = Inl e"
proof (cases "lookup_image_paths self qds")
  case (Inl e)
  then show ?thesis by blast
next
  case (Inr ps)
  then have "map (\<lambda>q. images_get (images self) (k_image_id q)) qds = map Some ps"
    by (simp add: lookup_image_paths_Inr)
  then have "set (map (\<lambda>q. images_get (images self) (k_image_id q)) qds) = set (map Some ps)"
    by simp
  then have "(\<lambda>q. images_get (images self) (k_image_id q)) ` set qds = Some ` set ps"
    by simp
  then have "\<forall>q \<in> set qds. images_get (images self) (k_image_id q) \<noteq> None"
    by blast
  with assms show ?thesis by blast
qed




lemma read_prepare_found:
  assumes g: "get_data_slice env split_name = (question_slice, nm)"
      and sp: "map_of splits nm = Some split"
      and a: "get_answers_by_question_id self env split s = (Inr answers, s1)"
      and q: "question_files s1 (cached_path env (questions split)) = Some questions_file"
  shows "read_prepare self env split_name s =
     (let question_dicts = shard_iterable env (question_slice questions_file) in
      if produce_featurized_images self
      then (case lookup_image_paths self question_dicts of
              Inl e \<Rightarrow> (Inl e, s1)
            | Inr image_paths \<Rightarrow>
                (Inr (answers, zip question_dicts
                        (map Some (process_image_paths env image_paths True))), s1))
      else (Inr (answers, zip question_dicts (replicate (length question_dicts) None)), s1))"
  by (simp add: read_prepare_def g sp a q Let_def)






subsection \<open>Questions without an answer in the vocabulary\<close>

lemma init_answer_vocab:
  assumes "VQAv2Reader_init env image_dir run_featurization base vocab multiple = Inr self"
  shows "answer_vocab self = map_option (\<lambda>toks. preprocess_answer env ` set toks) vocab"
  using assms by (auto simp: VQAv2Reader_init_def split: if_splits option.splits)

lemma kept_answers_empty:
  "kept_answers self counts = [] \<longleftrightarrow>
     (\<forall>a \<in> fst ` set counts. \<not> passes_vocab (answer_vocab self) a)"
  by (auto simp: kept_answers_def filter_empty_conv)

lemma text_to_instance_attempt:
  "text_to_instance self env question img answers uc \<noteq> None \<longleftrightarrow>
     (case answers of None \<Rightarrow> True
      | Some c \<Rightarrow> \<exists>a \<in> fst ` set c. passes_vocab (answer_vocab self) a)"
proof (cases answers)
  case None
  then show ?thesis by (simp add: text_to_instance_no_answers)
next
  case (Some c)
  then show ?thesis
    using text_to_instance_None [of self env question img c uc] kept_answers_empty [of self c]
    by auto
qed

lemma read_loop_kept:
  "read_loop self env answers zipped =
     map (\<lambda>(q, im). the (text_to_instance self env (k_question q) (map_option Processed im)
            (map_of answers (str_int (k_question_id q))) True))
       (filter (\<lambda>(q, im). case map_of answers (str_int (k_question_id q)) of
                   None \<Rightarrow> True
                 | Some c \<Rightarrow> \<exists>a \<in> fst ` set c. passes_vocab (answer_vocab self) a)
          zipped)"
proof -
  have e: "(\<lambda>(q, im). text_to_instance self env (k_question q) (map_option Processed im)
            (map_of answers (str_int (k_question_id q))) True \<noteq> None) =
        (\<lambda>(q, im). case map_of answers (str_int (k_question_id q)) of
                   None \<Rightarrow> True
                 | Some c \<Rightarrow> \<exists>a \<in> fst ` set c. passes_vocab (answer_vocab self) a)"
    by (intro ext) (simp only: text_to_instance_attempt split: prod.splits)
  show ?thesis
    by (rule trans [OF read_loop_filter]) (rule arg_cong [OF e])
qed

text \<open>
  C2. For a reader built by \<^verbatim>\<open>__init__\<close> and answer counts that are not
  \<^verbatim>\<open>None\<close>, \<^verbatim>\<open>text_to_instance\<close> returns \<^verbatim>\<open>None\<close> exactly when no
  answer passes the vocabulary filter: with a vocabulary, an answer passes when it is one
  of the preprocessed tokens; with none, every answer passes, so the result is
  \<^verbatim>\<open>None\<close> exactly for empty counts. Hence \<^verbatim>\<open>_read\<close> yields the instances
  of exactly the questions that have no answers recorded or some answer that passes, and
  none for a question whose answers are all outside the vocabulary.
\<close>

theorem text_to_instance_None_iff:
  assumes i: "VQAv2Reader_init env image_dir run_featurization base vocab multiple = Inr self"
  shows
   "(text_to_instance self env question img (Some counts) use_cache = None \<longleftrightarrow>
       (\<forall>a \<in> fst ` set counts.
          \<not> passes_vocab (map_option (\<lambda>toks. preprocess_answer env ` set toks) vocab) a)) \<and>
    (vocab = None \<longrightarrow>
       (text_to_instance self env question img (Some counts) use_cache = None \<longleftrightarrow> counts = [])) \<and>
    (\<forall>answers zipped s1.
       read_prepare self env split_name s = (Inr (answers, zipped), s1) \<longrightarrow>
       read self env (SplitName split_name) s =
         ((map (\<lambda>(q, im). the (text_to_instance self env (k_question q) (map_option Processed im)
                   (map_of answers (str_int (k_question_id q))) True))
            (filter (\<lambda>(q, im). case map_of answers (str_int (k_question_id q)) of
                        None \<Rightarrow> True
                      | Some c \<Rightarrow> \<exists>a \<in> fst ` set c. passes_vocab (answer_vocab self) a)
               zipped), None), s1))"
proof -
  note v = init_answer_vocab [OF i]
  have c1: "text_to_instance self env question img (Some counts) use_cache = None \<longleftrightarrow>
       (\<forall>a \<in> fst ` set counts.
          \<not> passes_vocab (map_option (\<lambda>toks. preprocess_answer env ` set toks) vocab) a)"
    by (simp only: text_to_instance_None kept_answers_empty v)
  have c2: "vocab = None \<longrightarrow>
       (text_to_instance self env question img (Some counts) use_cache = None \<longleftrightarrow> counts = [])"
    by (auto simp: c1 passes_vocab_def)
  have c3: "\<forall>answers zipped s1.
       read_prepare self env split_name s = (Inr (answers, zipped), s1) \<longrightarrow>
       read self env (SplitName split_name) s =
         ((map (\<lambda>(q, im). the (text_to_instance self env (k_question q) (map_option Processed im)
                   (map_of answers (str_int (k_question_id q))) True))
            (filter (\<lambda>(q, im). case map_of answers (str_int (k_question_id q)) of
                        None \<Rightarrow> True
                      | Some c \<Rightarrow> \<exists>a \<in> fst ` set c. passes_vocab (answer_vocab self) a)
               zipped), None), s1)"
    by (simp add: read_def read_split_def read_loop_kept)
  from c1 c2 c3 show ?thesis by blast
qed

lemma init_reader0:
  "VQAv2Reader_init env0 None False base0 (Some [''yes'', ''no'']) True = Inr reader0"
  by (simp add: VQAv2Reader_init_def reader0_def base0_def env0_simps)

theorem text_to_instance_None_iff_witness:
  "text_to_instance reader0 env0 ''what color?'' None (Some [(''blue'', 1), (''teal'', 1)]) True = None \<and>
   text_to_instance reader0 env0 ''is it?'' None (Some [(''yes'', 2), (''no'', 1)]) True \<noteq> None \<and>
   fst (read reader0 env0 (SplitName ''unittest'') fs0) =
     ([\<lparr> question_field = [''is it?''], box_features = None,
          box_coordinates = None, box_mask = None,
          labels = Some [''yes'', ''no''], label_weights = Some [2 / 3, 1 / 3] \<rparr>,
       \<lparr> question_field = [''why?''], box_features = None,
          box_coordinates = None, box_mask = None,
          labels = None, label_weights = None \<rparr>], None)"
proof -
  note t = text_to_instance_None_iff [OF init_reader0, where split_name = "''unittest''" and s = fs0]
  have v: "passes_vocab (map_option (\<lambda>toks. preprocess_answer env0 ` set toks) (Some [''yes'', ''no''])) a
            \<longleftrightarrow> a = ''yes'' \<or> a = ''no''" for a
    by (auto simp: passes_vocab_def env0_simps)
  have v': "passes_vocab (answer_vocab reader0) a \<longleftrightarrow> a = ''yes'' \<or> a = ''no''" for a
    by (auto simp: passes_vocab_def reader0_def)
  have c1: "text_to_instance reader0 env0 ''what color?'' None (Some [(''blue'', 1), (''teal'', 1)]) True = None"
    using t [where question = "''what color?''" and img = None
                and counts = "[(''blue'', 1), (''teal'', 1)]" and use_cache = True, THEN conjunct1]
    by (simp add: passes_vocab_def env0_simps)
  have c2: "text_to_instance reader0 env0 ''is it?'' None (Some [(''yes'', 2), (''no'', 1)]) True \<noteq> None"
    using t [where question = "''is it?''" and img = None
                and counts = "[(''yes'', 2), (''no'', 1)]" and use_cache = True, THEN conjunct1]
    by (auto simp add: passes_vocab_def env0_simps)
  let ?s1 = "snd (get_answers_by_question_id reader0 env0 split0 fs0)"
  have m: "multiple_answers_per_question reader0" and p: "\<not> produce_featurized_images reader0"
    by (simp_all add: reader0_def)
  have a: "get_answers_by_question_id reader0 env0 split0 fs0 = (Inr answers0, ?s1)"
    using get_answers0 [OF m] by (metis prod.collapse)
  have pr: "read_prepare reader0 env0 ''unittest'' fs0 =
      (Inr (answers0,
         [(\<lparr> k_question_id = 1, k_image_id = 1, k_question = ''is it?'' \<rparr>, None),
          (\<lparr> k_question_id = 2, k_image_id = 2, k_question = ''what color?'' \<rparr>, None),
          (\<lparr> k_question_id = 3, k_image_id = 1, k_question = ''why?'' \<rparr>, None)]), ?s1)"
    using read_prepare_found [OF env0_simps(1) splits_unittest a questions0] p
    by (simp add: env0_simps)
  have k: "kept_answers reader0 [(''yes'', 2), (''no'', 1)] = [(''yes'', 2), (''no'', 1)]"
    by (simp add: kept_answers_def passes_vocab_def reader0_def)
  have r: "read reader0 env0 (SplitName ''unittest'') fs0 =
         ((map (\<lambda>(q, im). the (text_to_instance reader0 env0 (k_question q) (map_option Processed im)
                   (map_of answers0 (str_int (k_question_id q))) True))
            (filter (\<lambda>(q, im). case map_of answers0 (str_int (k_question_id q)) of
                        None \<Rightarrow> True
                      | Some c \<Rightarrow> \<exists>a \<in> fst ` set c. passes_vocab (answer_vocab reader0) a)
               [(\<lparr> k_question_id = 1, k_image_id = 1, k_question = ''is it?'' \<rparr>, None),
                (\<lparr> k_question_id = 2, k_image_id = 2, k_question = ''what color?'' \<rparr>, None),
                (\<lparr> k_question_id = 3, k_image_id = 1, k_question = ''why?'' \<rparr>, None)]), None), ?s1)"
    by (rule t [THEN conjunct2, THEN conjunct2, rule_format, OF pr])
  have f: "filter (\<lambda>(q, im). case map_of answers0 (str_int (k_question_id q)) of
                        None \<Rightarrow> True
                      | Some c \<Rightarrow> \<exists>a \<in> fst ` set c. passes_vocab (answer_vocab reader0) a)
               [(\<lparr> k_question_id = 1, k_image_id = 1, k_question = ''is it?'' \<rparr>, None),
                (\<lparr> k_question_id = 2, k_image_id = 2, k_question = ''what color?'' \<rparr>, None),
                (\<lparr> k_question_id = 3, k_image_id = 1, k_question = ''why?'' \<rparr>, None)] =
           [(\<lparr> k_question_id = 1, k_image_id = 1, k_question = ''is it?'' \<rparr>, None),
            (\<lparr> k_question_id = 3, k_image_id = 1, k_question = ''why?'' \<rparr>, None)]"
    by (auto simp add: v' answers0_def str_int_small)
  have "read reader0 env0 (SplitName ''unittest'') fs0 =
     (([\<lparr> question_field = [''is it?''], box_features = None,
          box_coordinates = None, box_mask = None,
          labels = Some [''yes'', ''no''], label_weights = Some [2 / 3, 1 / 3] \<rparr>,
       \<lparr> question_field = [''why?''], box_features = None,
          box_coordinates = None, box_mask = None,
          labels = None, label_weights = None \<rparr>], None), ?s1)"
    unfolding r f
    by (simp add: answers0_def str_int_small text_to_instance_def collect_answers_eq k
         get_score_def env0_simps Let_def)
  with c1 c2 show ?thesis by simp
qed

subsection \<open>Answer counts of an annotation\<close>

lemma counter_add_lookup:
  "map_of (counter_add c k) k' =
     (if k' = k then Some ((case map_of c k of None \<Rightarrow> 0 | Some n \<Rightarrow> n) + 1) else map_of c k')"
  by (simp add: counter_add_def update_conv')

lemma counter_add_distinct: "distinct (map fst c) \<Longrightarrow> distinct (map fst (counter_add c k))"
  by (simp add: counter_add_def distinct_update)

lemma counter_add_keys: "fst ` set (counter_add c k) = insert k (fst ` set c)"
  by (simp add: counter_add_def dom_update)

lemma sum_update:
  "sum_list (map snd (AList.update k w c)) =
     sum_list (map snd c) - (case map_of c k of None \<Rightarrow> 0 | Some n \<Rightarrow> n) + (w :: int)"
  by (induction c) auto

lemma counter_add_sum: "sum_list (map snd (counter_add c k)) = sum_list (map snd c) + 1"
  by (simp add: counter_add_def sum_update)

lemma foldl_counter_add_lookup:
  "map_of (foldl counter_add c xs) k =
     (if k \<in> set xs
      then Some ((case map_of c k of None \<Rightarrow> 0 | Some n \<Rightarrow> n) + int (count_list xs k))
      else map_of c k)"
proof (induction xs arbitrary: c)
  case Nil
  then show ?case by simp
next
  case (Cons x xs)
  show ?case
    by (simp add: Cons.IH counter_add_lookup)
qed

lemma foldl_counter_add_distinct:
  "distinct (map fst c) \<Longrightarrow> distinct (map fst (foldl counter_add c xs))"
  by (induction xs arbitrary: c) (simp_all add: counter_add_distinct)

lemma foldl_counter_add_keys: "fst ` set (foldl counter_add c xs) = fst ` set c \<union> set xs"
  by (induction xs arbitrary: c) (auto simp: counter_add_keys)

lemma foldl_counter_add_sum:
  "sum_list (map snd (foldl counter_add c xs)) = sum_list (map snd c) + int (length xs)"
  by (induction xs arbitrary: c) (simp_all add: counter_add_sum)

lemma record_answer_counts_multiple:
  "multiple_answers_per_question self \<Longrightarrow>
     record_answer_counts self env a =
       foldl counter_add [] (map (\<lambda>d. preprocess_answer env (k_answer d)) (a_answers a))"
  by (simp add: record_answer_counts_def foldl_map)

lemma record_answer_counts_distinct: "distinct (map fst (record_answer_counts self env a))"
  by (simp add: record_answer_counts_def foldl_map [symmetric] foldl_counter_add_distinct del: foldl_map)

lemma set_alist_update: "set (AList.update k v al) \<subseteq> insert (k, v) (set al)"
  by (induction al) auto

lemma compute_answers_entries:
  "(q, c) \<in> set (foldl (\<lambda>d a. AList.update (str_int (a_question_id a)) (record_answer_counts self env a) d) d0 anns)
   \<Longrightarrow> (q, c) \<in> set d0 \<or> (\<exists>a \<in> set anns. q = str_int (a_question_id a) \<and> c = record_answer_counts self env a)"
proof (induction anns arbitrary: d0)
  case Nil
  then show ?case by simp
next
  case (Cons a anns)
  from Cons.prems have "(q, c) \<in> set (foldl (\<lambda>d a. AList.update (str_int (a_question_id a)) (record_answer_counts self env a) d)
       (AList.update (str_int (a_question_id a)) (record_answer_counts self env a) d0) anns)"
    by simp
  from Cons.IH [OF this] show ?case
    using set_alist_update [of "str_int (a_question_id a)" "record_answer_counts self env a" d0]
    by auto
qed

text \<open>
  C5. With \<^verbatim>\<open>multiple_answers_per_question\<close>, the counts of an annotation map each
  preprocessed answer to the number of the annotation's answers that preprocess to it (and
  nothing else), so they sum to the number of answers; without it, they are the single
  entry of the preprocessed multiple choice answer with count 1. Every entry of the
  computed mapping holds the counts of an annotation, under its question id as a string.
\<close>

theorem record_answer_counts_spec:
  "(multiple_answers_per_question self \<longrightarrow>
      distinct (map fst (record_answer_counts self env a)) \<and>
      (\<forall>s. map_of (record_answer_counts self env a) s =
         (if s \<in> set (map (\<lambda>d. preprocess_answer env (k_answer d)) (a_answers a))
          then Some (int (count_list (map (\<lambda>d. preprocess_answer env (k_answer d)) (a_answers a)) s))
          else None)) \<and>
      sum_list (map snd (record_answer_counts self env a)) = int (length (a_answers a))) \<and>
   (\<not> multiple_answers_per_question self \<longrightarrow>
      record_answer_counts self env a = [(preprocess_answer env (a_multiple_choice_answer a), 1)]) \<and>
   (\<forall>(q, c) \<in> set (compute_answers self env anns).
      \<exists>a \<in> set anns. q = str_int (a_question_id a) \<and> c = record_answer_counts self env a)"
proof -
  let ?pre = "map (\<lambda>d. preprocess_answer env (k_answer d)) (a_answers a)"
  have m: "multiple_answers_per_question self \<longrightarrow>
      distinct (map fst (record_answer_counts self env a)) \<and>
      (\<forall>s. map_of (record_answer_counts self env a) s =
         (if s \<in> set ?pre then Some (int (count_list ?pre s)) else None)) \<and>
      sum_list (map snd (record_answer_counts self env a)) = int (length (a_answers a))"
  proof
    assume h: "multiple_answers_per_question self"
    have e: "record_answer_counts self env a = foldl counter_add [] ?pre"
      using h by (rule record_answer_counts_multiple)
    have "\<forall>s. map_of (foldl counter_add [] ?pre) s =
         (if s \<in> set ?pre then Some (int (count_list ?pre s)) else None)"
      by (simp only: foldl_counter_add_lookup) simp
    moreover have "sum_list (map snd (foldl counter_add [] ?pre)) = int (length (a_answers a))"
      by (simp only: foldl_counter_add_sum) simp
    ultimately show "distinct (map fst (record_answer_counts self env a)) \<and>
      (\<forall>s. map_of (record_answer_counts self env a) s =
         (if s \<in> set ?pre then Some (int (count_list ?pre s)) else None)) \<and>
      sum_list (map snd (record_answer_counts self env a)) = int (length (a_answers a))"
      unfolding e [symmetric] using record_answer_counts_distinct by blast
  qed
  have s: "\<not> multiple_answers_per_question self \<longrightarrow>
      record_answer_counts self env a = [(preprocess_answer env (a_multiple_choice_answer a), 1)]"
    by (simp add: record_answer_counts_def)
  have l: "\<forall>(q, c) \<in> set (compute_answers self env anns).
      \<exists>a \<in> set anns. q = str_int (a_question_id a) \<and> c = record_answer_counts self env a"
    using compute_answers_entries [of _ _ self env "[]" anns]
    by (auto simp: compute_answers_def)
  from m s l show ?thesis by blast
qed

theorem record_answer_counts_spec_witness:
  "record_answer_counts reader0 env0
      \<lparr> a_question_id = 1,
        a_answers = [\<lparr> k_answer = ''yes'' \<rparr>, \<lparr> k_answer = ''no'' \<rparr>, \<lparr> k_answer = ''yes'' \<rparr>],
        a_multiple_choice_answer = ''yes'' \<rparr> = [(''yes'', 2), (''no'', 1)] \<and>
   sum_list (map snd (record_answer_counts reader0 env0
      \<lparr> a_question_id = 1,
        a_answers = [\<lparr> k_answer = ''yes'' \<rparr>, \<lparr> k_answer = ''no'' \<rparr>, \<lparr> k_answer = ''yes'' \<rparr>],
        a_multiple_choice_answer = ''yes'' \<rparr>)) = 3 \<and>
   record_answer_counts (reader0 \<lparr> multiple_answers_per_question := False \<rparr>) env0
      \<lparr> a_question_id = 1,
        a_answers = [\<lparr> k_answer = ''yes'' \<rparr>, \<lparr> k_answer = ''no'' \<rparr>, \<lparr> k_answer = ''yes'' \<rparr>],
        a_multiple_choice_answer = ''yes'' \<rparr> = [(''yes'', 1)]"
proof -
  let ?a = "\<lparr> a_question_id = 1,
        a_answers = [\<lparr> k_answer = ''yes'' \<rparr>, \<lparr> k_answer = ''no'' \<rparr>, \<lparr> k_answer = ''yes'' \<rparr>],
        a_multiple_choice_answer = ''yes'' \<rparr>"
  have m: "multiple_answers_per_question reader0" by (simp add: reader0_def)
  have n: "\<not> multiple_answers_per_question (reader0 \<lparr> multiple_answers_per_question := False \<rparr>)"
    by simp
  have c1: "record_answer_counts reader0 env0 ?a = [(''yes'', 2), (''no'', 1)]"
    by (simp add: record_answer_counts_def m counter_add_def env0_simps)
  have c2: "sum_list (map snd (record_answer_counts reader0 env0 ?a)) = 3"
    using record_answer_counts_spec [of reader0 env0 ?a "[]"] m by simp
  have c3: "record_answer_counts (reader0 \<lparr> multiple_answers_per_question := False \<rparr>) env0 ?a = [(''yes'', 1)]"
    using record_answer_counts_spec [of "reader0 \<lparr> multiple_answers_per_question := False \<rparr>" env0 ?a "[]"] n
    by (simp add: env0_simps)
  from c1 c2 c3 show ?thesis by blast
qed

subsection \<open>The cache gives back what was computed\<close>

lemma update_fresh: "k \<notin> fst ` set al \<Longrightarrow> AList.update k v al = al @ [(k, v)]"
  by (induction al) auto

lemma foldl_update_distinct_append:
  "distinct (map fst (d @ kvs)) \<Longrightarrow>
     foldl (\<lambda>d (k, v). AList.update k v d) d kvs = d @ kvs"
proof (induction kvs arbitrary: d)
  case Nil
  then show ?case by simp
next
  case (Cons x kvs)
  obtain k v where x: "x = (k, v)" by (cases x)
  from Cons.prems have f: "k \<notin> fst ` set d" and d: "distinct (map fst ((d @ [(k, v)]) @ kvs))"
    by (auto simp: x)
  have "foldl (\<lambda>d (k, v). AList.update k v d) (d @ [(k, v)]) kvs = (d @ [(k, v)]) @ kvs"
    using d by (rule Cons.IH)
  then show ?case
    by (simp add: x update_fresh [OF f])
qed

lemma dict_of_pairs_distinct: "distinct (map fst kvs) \<Longrightarrow> dict_of_pairs kvs = kvs"
  unfolding dict_of_pairs_def
  using foldl_update_distinct_append [of "[]" kvs] by simp

lemma json_roundtrip_counts:
  assumes "distinct (map fst c)"
  shows "json_load (json_dump (py_of_counts c)) = py_of_counts c"
proof -
  have "distinct (map fst (map (\<lambda>(a, n). (KStr a, PyInt n)) c))"
    using assms by (simp add: distinct_map comp_def case_prod_beta inj_on_def)
  then have d: "dict_of_pairs (map (\<lambda>(a, n). (KStr a, PyInt n)) c) = map (\<lambda>(a, n). (KStr a, PyInt n)) c"
    by (rule dict_of_pairs_distinct)
  have e: "map (\<lambda>(k, v). (KStr k, json_load v))
          (map (\<lambda>(k, v). (case k of KStr s \<Rightarrow> s | KInt i \<Rightarrow> str_int i, json_dump v))
             (map (\<lambda>(a, n). (KStr a, PyInt n)) c)) =
        map (\<lambda>(a, n). (KStr a, PyInt n)) c"
    by (induction c) auto
  show ?thesis
    unfolding py_of_counts_def json_dump.simps json_load.simps e d ..
qed

lemma json_roundtrip_answers:
  assumes "distinct (map fst m)" and "\<forall>(q, c) \<in> set m. distinct (map fst c)"
  shows "json_load (json_dump (py_of_answers m)) = py_of_answers m"
proof -
  have "distinct (map fst (map (\<lambda>(q, c). (KStr q, py_of_counts c)) m))"
    using assms(1) by (simp add: distinct_map comp_def case_prod_beta inj_on_def)
  then have d: "dict_of_pairs (map (\<lambda>(q, c). (KStr q, py_of_counts c)) m) =
                map (\<lambda>(q, c). (KStr q, py_of_counts c)) m"
    by (rule dict_of_pairs_distinct)
  have e: "map (\<lambda>(k, v). (KStr k, json_load v))
          (map (\<lambda>(k, v). (case k of KStr s \<Rightarrow> s | KInt i \<Rightarrow> str_int i, json_dump v))
             (map (\<lambda>(q, c). (KStr q, py_of_counts c)) m)) =
        map (\<lambda>(q, c). (KStr q, py_of_counts c)) m"
    using assms(2) by (induction m) (auto simp: json_roundtrip_counts)
  show ?thesis
    unfolding py_of_answers_def json_dump.simps json_load.simps e d ..
qed

lemma those_list_map_Some: "those_list (map Some xs) = Some xs"
  by (induction xs) auto

lemma counts_of_py_inverse: "counts_of_py (py_of_counts c) = Some c"
proof -
  have "map count_of_py (map (\<lambda>(a, n). (KStr a, PyInt n)) c) = map Some c"
    by (induction c) auto
  then show ?thesis
    by (simp add: py_of_counts_def those_list_map_Some del: map_map)
qed

lemma answers_of_py_inverse: "answers_of_py (py_of_answers m) = Some m"
proof -
  have "map entry_of_py (map (\<lambda>(q, c). (KStr q, py_of_counts c)) m) = map Some m"
    by (induction m) (auto simp: counts_of_py_inverse)
  then show ?thesis
    by (simp add: py_of_answers_def those_list_map_Some del: map_map)
qed

lemma compute_answers_distinct: "distinct (map fst (compute_answers self env anns))"
proof -
  have "distinct (map fst d0) \<Longrightarrow>
     distinct (map fst (foldl (\<lambda>d a. AList.update (str_int (a_question_id a))
        (record_answer_counts self env a) d) d0 anns))" for d0
    by (induction anns arbitrary: d0) (simp_all add: distinct_update)
  from this [of "[]"] show ?thesis
    by (simp add: compute_answers_def)
qed

lemma compute_answers_counts_distinct:
  "\<forall>(q, c) \<in> set (compute_answers self env anns). distinct (map fst c)"
proof -
  have "\<forall>(q, c) \<in> set (compute_answers self env anns).
      \<exists>a \<in> set anns. q = str_int (a_question_id a) \<and> c = record_answer_counts self env a"
    using compute_answers_entries [of _ _ self env "[]" anns]
    by (auto simp: compute_answers_def)
  then show ?thesis
    using record_answer_counts_distinct by fastforce
qed

lemma compute_answers_roundtrip:
  "answers_of_py (json_load (json_dump (py_of_answers (compute_answers self env anns)))) =
     Some (compute_answers self env anns)"
  by (simp only: json_roundtrip_answers [OF compute_answers_distinct compute_answers_counts_distinct]
      answers_of_py_inverse)

text \<open>
  C4. For a split with annotations and no cache yet, the first call computes the mapping
  from the annotations file and writes it to the cache as JSON; loading that document
  gives the mapping back, and a second call with the same reader, which reads the cache,
  returns the same mapping.
\<close>

theorem answers_cache_roundtrip:
  assumes ann: "annotations split = Some ann"
      and fresh: "cache s (ann @ ''-cache'', cached_path env ann) = None"
      and first: "get_answers_by_question_id self env split s = (Inr m, s1)"
  shows "(\<exists>anns. annotation_files s (cached_path env ann) = Some anns \<and>
                m = compute_answers self env anns) \<and>
         cache s1 (ann @ ''-cache'', cached_path env ann) = Some (json_dump (py_of_answers m)) \<and>
         answers_of_py (json_load (json_dump (py_of_answers m))) = Some m \<and>
         get_answers_by_question_id self env split s1 = (Inr m, s1)"
proof -
  let ?key = "(ann @ ''-cache'', cached_path env ann)"
  from first ann fresh obtain anns where
    a: "annotation_files s (cached_path env ann) = Some anns"
    and m: "m = compute_answers self env anns"
    and s1: "s1 = s \<lparr> cache := (cache s)(?key \<mapsto> json_dump (py_of_answers m)) \<rparr>"
    by (auto simp: get_answers_by_question_id_def Let_def split: option.splits)
  have c: "cache s1 ?key = Some (json_dump (py_of_answers m))"
    by (simp add: s1)
  have r: "answers_of_py (json_load (json_dump (py_of_answers m))) = Some m"
    unfolding m by (rule compute_answers_roundtrip)
  have "get_answers_by_question_id self env split s1 = (Inr m, s1)"
    by (simp add: get_answers_by_question_id_def ann c r Let_def)
  with a m c r show ?thesis by blast
qed

theorem answers_cache_roundtrip_witness:
  "fst (get_answers_by_question_id reader0 env0 split0 fs0) = Inr answers0 \<and>
   cache (snd (get_answers_by_question_id reader0 env0 split0 fs0))
     (''test_fixtures/vision/vqav2/annotations.json-cache'',
      ''test_fixtures/vision/vqav2/annotations.json'') =
     Some (JObj [(''1'', JObj [(''yes'', JInt 2), (''no'', JInt 1)]),
                 (''2'', JObj [(''blue'', JInt 1), (''teal'', JInt 1)])]) \<and>
   get_answers_by_question_id reader0 env0 split0
       (snd (get_answers_by_question_id reader0 env0 split0 fs0)) =
     (Inr answers0, snd (get_answers_by_question_id reader0 env0 split0 fs0))"
proof -
  let ?s1 = "snd (get_answers_by_question_id reader0 env0 split0 fs0)"
  have m: "multiple_answers_per_question reader0" by (simp add: reader0_def)
  have a: "get_answers_by_question_id reader0 env0 split0 fs0 = (Inr answers0, ?s1)"
    using get_answers0 [OF m] by (metis prod.collapse)
  have ann: "annotations split0 = Some ''test_fixtures/vision/vqav2/annotations.json''"
    by (simp add: split0_def)
  have fresh: "cache fs0 (''test_fixtures/vision/vqav2/annotations.json'' @ ''-cache'',
       cached_path env0 ''test_fixtures/vision/vqav2/annotations.json'') = None"
    by (simp add: fs0_def)
  from answers_cache_roundtrip [OF ann fresh a]
  have c: "cache ?s1 (''test_fixtures/vision/vqav2/annotations.json'' @ ''-cache'',
             cached_path env0 ''test_fixtures/vision/vqav2/annotations.json'') =
           Some (json_dump (py_of_answers answers0))"
    and r: "get_answers_by_question_id reader0 env0 split0 ?s1 = (Inr answers0, ?s1)"
    by blast+
  have j: "json_dump (py_of_answers answers0) =
      JObj [(''1'', JObj [(''yes'', JInt 2), (''no'', JInt 1)]),
            (''2'', JObj [(''blue'', JInt 1), (''teal'', JInt 1)])]"
    by (simp add: answers0_def py_of_answers_def py_of_counts_def)
  have c': "cache ?s1 (''test_fixtures/vision/vqav2/annotations.json-cache'',
      ''test_fixtures/vision/vqav2/annotations.json'') =
     Some (JObj [(''1'', JObj [(''yes'', JInt 2), (''no'', JInt 1)]),
                 (''2'', JObj [(''blue'', JInt 1), (''teal'', JInt 1)])])"
    using c unfolding j by (simp add: env0_simps)
  from get_answers0 [OF m] c' r show ?thesis by blast
qed

subsection \<open>A list of splits\<close>

lemma cache_grown_refl: "cache_grown self env s s"
  by (simp add: cache_grown_def)

lemma get_answers_grown:
  assumes g: "cache_grown self env s s'"
  shows "fst (get_answers_by_question_id self env split s') =
           fst (get_answers_by_question_id self env split s) \<and>
         cache_grown self env s (snd (get_answers_by_question_id self env split s'))"
proof (cases "annotations split")
  case None
  then show ?thesis using g by (simp add: get_answers_by_question_id_def)
next
  case (Some ann)
  let ?key = "(ann @ ''-cache'', cached_path env ann)"
  from g have af: "annotation_files s' = annotation_files s"
    and k: "cache s' ?key = cache s ?key \<or>
        (cache s ?key = None \<and>
         (\<exists>anns. annotation_files s (cached_path env ann) = Some anns \<and>
            cache s' ?key = Some (json_dump (py_of_answers (compute_answers self env anns)))))"
    by (auto simp: cache_grown_def)
  show ?thesis
  proof (cases "cache s' ?key")
    case None
    then have n: "cache s ?key = None" using k by auto
    show ?thesis
    proof (cases "annotation_files s (cached_path env ann)")
      case None
      then show ?thesis
        using g \<open>cache s' ?key = None\<close> n af Some
        by (simp add: get_answers_by_question_id_def Let_def)
    next
      case (Some anns)
      have "cache_grown self env s
              (s' \<lparr> cache := (cache s')(?key \<mapsto> json_dump (py_of_answers (compute_answers self env anns))) \<rparr>)"
        using g n Some by (auto simp: cache_grown_def)
      then show ?thesis
        using \<open>cache s' ?key = None\<close> n af Some \<open>annotations split = Some ann\<close>
        by (simp add: get_answers_by_question_id_def Let_def)
    qed
  next
    case (Some doc)
    from k show ?thesis
    proof
      assume "cache s' ?key = cache s ?key"
      then have cs: "cache s ?key = Some doc" using Some by simp
      show ?thesis
      proof (cases "answers_of_py (json_load doc)")
        case None
        then show ?thesis
          using g \<open>annotations split = Some ann\<close>
          by (simp add: get_answers_by_question_id_def Let_def cs Some)
      next
        case (Some m)
        then show ?thesis
          using g \<open>annotations split = Some ann\<close>
          by (simp add: get_answers_by_question_id_def Let_def cs \<open>cache s' ?key = Some doc\<close>)
      qed
    next
      assume "cache s ?key = None \<and>
         (\<exists>anns. annotation_files s (cached_path env ann) = Some anns \<and>
            cache s' ?key = Some (json_dump (py_of_answers (compute_answers self env anns))))"
      then obtain anns where n: "cache s ?key = None"
        and a: "annotation_files s (cached_path env ann) = Some anns"
        and c: "cache s' ?key = Some (json_dump (py_of_answers (compute_answers self env anns)))"
        by blast
      show ?thesis
        using g n a c \<open>annotations split = Some ann\<close>
        by (simp add: get_answers_by_question_id_def Let_def compute_answers_roundtrip)
    qed
  qed
qed

lemma read_prepare_grown:
  assumes g: "cache_grown self env s s'"
  shows "fst (read_prepare self env name s') = fst (read_prepare self env name s) \<and>
         cache_grown self env s (snd (read_prepare self env name s'))"
proof -
  obtain sl nm where d: "get_data_slice env name = (sl, nm)"
    by (cases "get_data_slice env name")
  show ?thesis
  proof (cases "map_of splits nm")
    case None
    then show ?thesis using g d by (simp add: read_prepare_def)
  next
    case (Some split)
    obtain r s1 where a: "get_answers_by_question_id self env split s = (r, s1)"
      by (cases "get_answers_by_question_id self env split s")
    obtain r' s1' where a': "get_answers_by_question_id self env split s' = (r', s1')"
      by (cases "get_answers_by_question_id self env split s'")
    from get_answers_grown [OF g, of split] a a'
    have rr: "r' = r" and g1': "cache_grown self env s s1'" by simp_all
    from get_answers_grown [OF cache_grown_refl, of self env split s] a
    have g1: "cache_grown self env s s1" by simp
    have q: "question_files s1' = question_files s1"
      using g1 g1' by (simp add: cache_grown_def)
    show ?thesis
    proof (cases r)
      case (Inl e)
      then show ?thesis
        using d Some a a' rr g1' by (simp add: read_prepare_def)
    next
      case (Inr answers)
      then show ?thesis
        using d Some a a' rr g1' q
        by (simp add: read_prepare_def Let_def split: option.splits sum.splits)
    qed
  qed
qed

lemma read_split_grown:
  assumes g: "cache_grown self env s s'"
  shows "fst (read_split self env name s') = fst (read_split self env name s) \<and>
         cache_grown self env s (snd (read_split self env name s'))"
proof -
  obtain r s1 where a: "read_prepare self env name s = (r, s1)"
    by (cases "read_prepare self env name s")
  obtain r' s1' where a': "read_prepare self env name s' = (r', s1')"
    by (cases "read_prepare self env name s'")
  from read_prepare_grown [OF g, of name] a a'
  have "r' = r" and "cache_grown self env s s1'" by simp_all
  then show ?thesis
    using a a' by (simp add: read_split_def split: sum.splits prod.splits)
qed

lemma read_list_chain:
  assumes g: "cache_grown self env s s'"
  shows "fst (read_list self env names s') =
           chain (map (\<lambda>n. fst (read_split self env n s)) names)"
  using g
proof (induction names arbitrary: s')
  case Nil
  then show ?case by simp
next
  case (Cons n names)
  obtain xs e s1 where r: "read_split self env n s' = ((xs, e), s1)"
    by (cases "read_split self env n s'") auto
  from read_split_grown [OF Cons.prems, of n] r
  have f: "fst (read_split self env n s) = (xs, e)" and g1: "cache_grown self env s s1"
    by simp_all
  show ?case
  proof (cases e)
    case None
    obtain ys e2 s2 where l: "read_list self env names s1 = ((ys, e2), s2)"
      by (cases "read_list self env names s1") auto
    with Cons.IH [OF g1] have "chain (map (\<lambda>n. fst (read_split self env n s)) names) = (ys, e2)"
      by simp
    then show ?thesis
      using r f None l by simp
  next
    case (Some err)
    then show ?thesis using r f by simp
  qed
qed

lemma read_list_state_all:
  assumes g: "cache_grown self env s s'"
      and f: "\<forall>n \<in> set names. snd (fst (read_split self env n s)) = None"
  shows "snd (read_list self env names s') =
           foldl (\<lambda>st m. snd (read_split self env m st)) s' names"
  using g f
proof (induction names arbitrary: s')
  case Nil
  then show ?case by simp
next
  case (Cons n names)
  obtain xs e s1 where r: "read_split self env n s' = ((xs, e), s1)"
    by (cases "read_split self env n s'") auto
  from read_split_grown [OF Cons.prems(1), of n] r
  have "fst (read_split self env n s) = (xs, e)" and g1: "cache_grown self env s s1"
    by simp_all
  with Cons.prems(2) have e: "e = None" by simp
  have "snd (read_list self env names s1) =
          foldl (\<lambda>st m. snd (read_split self env m st)) s1 names"
    using g1 Cons.prems(2) by (intro Cons.IH) simp_all
  then show ?case
    using r e by (auto split: prod.splits)
qed

lemma read_list_state_raise:
  assumes g: "cache_grown self env s s'"
      and f: "\<forall>m \<in> set pre. snd (fst (read_split self env m s)) = None"
      and x: "snd (fst (read_split self env n s)) = Some e"
  shows "snd (read_list self env (pre @ n # post) s') =
           foldl (\<lambda>st m. snd (read_split self env m st)) s' (pre @ [n])"
  using g f
proof (induction pre arbitrary: s')
  case Nil
  obtain xs e' s1 where r: "read_split self env n s' = ((xs, e'), s1)"
    by (cases "read_split self env n s'") auto
  from read_split_grown [OF Nil(1), of n] r
  have "fst (read_split self env n s) = (xs, e')" by simp
  with x have "e' = Some e" by simp
  then show ?case using r by simp
next
  case (Cons m pre)
  obtain xs e' s1 where r: "read_split self env m s' = ((xs, e'), s1)"
    by (cases "read_split self env m s'") auto
  from read_split_grown [OF Cons.prems(1), of m] r
  have "fst (read_split self env m s) = (xs, e')" and g1: "cache_grown self env s s1"
    by simp_all
  with Cons.prems(2) have e': "e' = None" by simp
  have "snd (read_list self env (pre @ n # post) s1) =
          foldl (\<lambda>st m. snd (read_split self env m st)) s1 (pre @ [n])"
    using g1 Cons.prems(2) by (intro Cons.IH) simp_all
  then show ?case
    using r e' by (auto split: prod.splits)
qed

lemma chain_all_finished:
  "\<forall>g \<in> set gs. snd g = None \<Longrightarrow> chain gs = (concat (map fst gs), None)"
  by (induction gs rule: chain.induct) auto

lemma chain_append_raise:
  "\<forall>g \<in> set pre. snd g = None \<Longrightarrow>
     chain (pre @ (xs, Some e) # post) = (concat (map fst pre) @ xs, Some e)"
  by (induction pre rule: chain.induct) auto

lemma read_reader0_unittest:
  "fst (read reader0 env0 (SplitName ''unittest'') fs0) =
     ([\<lparr> question_field = [''is it?''], box_features = None,
          box_coordinates = None, box_mask = None,
          labels = Some [''yes'', ''no''], label_weights = Some [2 / 3, 1 / 3] \<rparr>,
       \<lparr> question_field = [''why?''], box_features = None,
          box_coordinates = None, box_mask = None,
          labels = None, label_weights = None \<rparr>], None)"
proof -
  let ?s1 = "snd (get_answers_by_question_id reader0 env0 split0 fs0)"
  have m: "multiple_answers_per_question reader0" and p: "\<not> produce_featurized_images reader0"
    by (simp_all add: reader0_def)
  have a: "get_answers_by_question_id reader0 env0 split0 fs0 = (Inr answers0, ?s1)"
    using get_answers0 [OF m] by (metis prod.collapse)
  have pr: "read_prepare reader0 env0 ''unittest'' fs0 =
      (Inr (answers0,
         [(\<lparr> k_question_id = 1, k_image_id = 1, k_question = ''is it?'' \<rparr>, None),
          (\<lparr> k_question_id = 2, k_image_id = 2, k_question = ''what color?'' \<rparr>, None),
          (\<lparr> k_question_id = 3, k_image_id = 1, k_question = ''why?'' \<rparr>, None)]), ?s1)"
    using read_prepare_found [OF env0_simps(1) splits_unittest a questions0] p
    by (simp add: env0_simps)
  have k: "kept_answers reader0 [(''yes'', 2), (''no'', 1)] = [(''yes'', 2), (''no'', 1)]"
     "kept_answers reader0 [(''blue'', 1), (''teal'', 1)] = []"
    by (simp_all add: kept_answers_def passes_vocab_def reader0_def)
  show ?thesis
    by (simp add: read_def read_split_def pr answers0_def str_int_small text_to_instance_def
        collect_answers_eq k get_score_def env0_simps Let_def)
qed

lemma read_reader0_nope:
  "read reader0 env0 (SplitName ''nope'') fs0 =
     (([], Some (ValueError ''Unrecognized split: nope.'')), fs0)"
proof -
  have "snd (get_data_slice env0 ''nope'') \<notin> fst ` set splits"
    by (simp add: splits_names env0_simps)
  from read_prepare_unrecognized [OF this, of reader0 fs0] show ?thesis
    by (simp add: read_def read_split_def env0_simps)
qed

lemma read_split_state: "snd (read_split self env n s) = snd (read_prepare self env n s)"
proof (cases "read_prepare self env n s")
  case (Pair r s1)
  then show ?thesis
    by (cases r) (auto simp: read_split_def)
qed

lemma read_reader0_unittest_writes:
  "snd (read reader0 env0 (SplitName ''unittest'') fs0) \<noteq> fs0"
proof -
  let ?s1 = "snd (get_answers_by_question_id reader0 env0 split0 fs0)"
  have m: "multiple_answers_per_question reader0" by (simp add: reader0_def)
  have a: "get_answers_by_question_id reader0 env0 split0 fs0 = (Inr answers0, ?s1)"
    using get_answers0 [OF m] by (metis prod.collapse)
  have "snd (read_prepare reader0 env0 ''unittest'' fs0) = ?s1"
    using read_prepare_found [OF env0_simps(1) splits_unittest a questions0]
    by (simp add: Let_def split: sum.splits)
  then have "snd (read reader0 env0 (SplitName ''unittest'') fs0) = ?s1"
    by (simp add: read_def read_split_state)
  moreover have "cache ?s1 (''test_fixtures/vision/vqav2/annotations.json-cache'',
                    ''test_fixtures/vision/vqav2/annotations.json'') \<noteq> None"
    by (simp add: get_answers_by_question_id_def split0_def env0_simps fs0_def Let_def)
  moreover have "cache fs0 (''test_fixtures/vision/vqav2/annotations.json-cache'',
                    ''test_fixtures/vision/vqav2/annotations.json'') = None"
    by (simp add: fs0_def)
  ultimately show ?thesis by metis
qed

text \<open>
  C9, as the code has it. \<^verbatim>\<open>_read\<close> of a list of split names is the chain of the
  reads of each name on its own. When none of them raises, it yields the concatenation of
  what they yield, in order, and leaves the file system as reading the names one after the
  other does. When one raises, it yields what the names before it and that name yield and
  then raises the same exception; the names after it are not read: the result, file system
  included, is that of the list cut after the name that raises. The empty list yields
  nothing. The claim without the condition fails: after an unrecognized name nothing more
  is yielded.
\<close>

theorem read_list_concat:
  "fst (read self env (SplitList names) s) =
      chain (map (\<lambda>n. fst (read self env (SplitName n) s)) names) \<and>
   ((\<forall>n \<in> set names. snd (fst (read self env (SplitName n) s)) = None) \<longrightarrow>
      read self env (SplitList names) s =
        ((concat (map (\<lambda>n. fst (fst (read self env (SplitName n) s))) names), None),
         foldl (\<lambda>st m. snd (read self env (SplitName m) st)) s names)) \<and>
   (\<forall>pre n post e.
      names = pre @ n # post \<and>
      (\<forall>m \<in> set pre. snd (fst (read self env (SplitName m) s)) = None) \<and>
      snd (fst (read self env (SplitName n) s)) = Some e \<longrightarrow>
      read self env (SplitList names) s =
        ((concat (map (\<lambda>m. fst (fst (read self env (SplitName m) s))) pre) @
            fst (fst (read self env (SplitName n) s)), Some e),
         foldl (\<lambda>st m. snd (read self env (SplitName m) st)) s (pre @ [n])) \<and>
      read self env (SplitList names) s = read self env (SplitList (pre @ [n])) s) \<and>
   read self env (SplitList []) s = (([], None), s)"
proof -
  let ?g = "\<lambda>n. fst (read self env (SplitName n) s)"
  let ?st = "foldl (\<lambda>st m. snd (read self env (SplitName m) st)) s"
  have rs: "read self env (SplitName n) = read_split self env n" for n
    by (intro ext) (simp add: read_def)
  have c: "fst (read self env (SplitList ns) s) = chain (map ?g ns)" for ns
    using read_list_chain [OF cache_grown_refl, of self env ns s]
    by (simp add: read_def)
  have a: "(\<forall>n \<in> set names. snd (?g n) = None) \<longrightarrow>
      read self env (SplitList names) s = ((concat (map (\<lambda>n. fst (?g n)) names), None), ?st names)"
  proof
    assume h: "\<forall>n \<in> set names. snd (?g n) = None"
    then have "\<forall>g \<in> set (map ?g names). snd g = None" by simp
    from chain_all_finished [OF this]
    have "fst (read self env (SplitList names) s) = (concat (map (\<lambda>n. fst (?g n)) names), None)"
      by (simp add: c comp_def)
    moreover have "snd (read self env (SplitList names) s) = ?st names"
      using read_list_state_all [OF cache_grown_refl, of names self env s] h
      by (simp add: read_def rs)
    ultimately show "read self env (SplitList names) s =
        ((concat (map (\<lambda>n. fst (?g n)) names), None), ?st names)"
      by (simp add: prod_eq_iff)
  qed
  have raise: "read self env (SplitList (pre @ n # post)) s =
        ((concat (map (\<lambda>m. fst (?g m)) pre) @ fst (?g n), Some e), ?st (pre @ [n]))"
    if h: "(\<forall>m \<in> set pre. snd (?g m) = None) \<and> snd (?g n) = Some e" for pre n post e
  proof -
    from h have "\<forall>g \<in> set (map ?g pre). snd g = None" by simp
    from chain_append_raise [OF this, of "fst (?g n)" e "map ?g post"]
    have "chain (map ?g pre @ (fst (?g n), Some e) # map ?g post) =
            (concat (map (\<lambda>m. fst (?g m)) pre) @ fst (?g n), Some e)"
      by (simp add: comp_def)
    moreover have "map ?g (pre @ n # post) = map ?g pre @ (fst (?g n), Some e) # map ?g post"
      using h by (simp add: prod_eq_iff)
    ultimately have "fst (read self env (SplitList (pre @ n # post)) s) =
        (concat (map (\<lambda>m. fst (?g m)) pre) @ fst (?g n), Some e)"
      by (simp only: c)
    moreover have "snd (read self env (SplitList (pre @ n # post)) s) = ?st (pre @ [n])"
      using read_list_state_raise [OF cache_grown_refl, of pre self env s n e post] h
      by (simp add: read_def rs)
    ultimately show ?thesis
      by (simp add: prod_eq_iff)
  qed
  have r: "\<forall>pre n post e.
      names = pre @ n # post \<and> (\<forall>m \<in> set pre. snd (?g m) = None) \<and> snd (?g n) = Some e \<longrightarrow>
      read self env (SplitList names) s =
        ((concat (map (\<lambda>m. fst (?g m)) pre) @ fst (?g n), Some e), ?st (pre @ [n])) \<and>
      read self env (SplitList names) s = read self env (SplitList (pre @ [n])) s"
  proof (intro allI impI)
    fix pre n post e
    assume h: "names = pre @ n # post \<and> (\<forall>m \<in> set pre. snd (?g m) = None) \<and> snd (?g n) = Some e"
    then have h': "(\<forall>m \<in> set pre. snd (?g m) = None) \<and> snd (?g n) = Some e" by blast
    from raise [OF h', of post] raise [OF h', of "[]"] h
    show "read self env (SplitList names) s =
        ((concat (map (\<lambda>m. fst (?g m)) pre) @ fst (?g n), Some e), ?st (pre @ [n])) \<and>
      read self env (SplitList names) s = read self env (SplitList (pre @ [n])) s"
      by simp
  qed
  have e: "read self env (SplitList []) s = (([], None), s)"
    by (simp add: read_def)
  from c [of names] a r e show ?thesis by blast
qed

theorem read_list_concat_witness:
  "fst (read reader0 env0 (SplitList [''unittest'', ''unittest'']) fs0) =
     ([\<lparr> question_field = [''is it?''], box_features = None,
          box_coordinates = None, box_mask = None,
          labels = Some [''yes'', ''no''], label_weights = Some [2 / 3, 1 / 3] \<rparr>,
       \<lparr> question_field = [''why?''], box_features = None,
          box_coordinates = None, box_mask = None,
          labels = None, label_weights = None \<rparr>,
       \<lparr> question_field = [''is it?''], box_features = None,
          box_coordinates = None, box_mask = None,
          labels = Some [''yes'', ''no''], label_weights = Some [2 / 3, 1 / 3] \<rparr>,
       \<lparr> question_field = [''why?''], box_features = None,
          box_coordinates = None, box_mask = None,
          labels = None, label_weights = None \<rparr>], None) \<and>
   fst (read reader0 env0 (SplitList [''unittest'', ''nope'', ''unittest'']) fs0) =
     ([\<lparr> question_field = [''is it?''], box_features = None,
          box_coordinates = None, box_mask = None,
          labels = Some [''yes'', ''no''], label_weights = Some [2 / 3, 1 / 3] \<rparr>,
       \<lparr> question_field = [''why?''], box_features = None,
          box_coordinates = None, box_mask = None,
          labels = None, label_weights = None \<rparr>],
      Some (ValueError ''Unrecognized split: nope.'')) \<and>
   read reader0 env0 (SplitList [''nope'', ''unittest'']) fs0 =
     (([], Some (ValueError ''Unrecognized split: nope.'')), fs0) \<and>
   snd (read reader0 env0 (SplitName ''unittest'') fs0) \<noteq> fs0"
proof -
  have a: "\<forall>n \<in> set [''unittest'', ''unittest''].
             snd (fst (read reader0 env0 (SplitName n) fs0)) = None"
    by (simp add: read_reader0_unittest)
  have "read reader0 env0 (SplitList [''unittest'', ''unittest'']) fs0 =
      ((concat (map (\<lambda>n. fst (fst (read reader0 env0 (SplitName n) fs0)))
         [''unittest'', ''unittest'']), None),
       foldl (\<lambda>st m. snd (read reader0 env0 (SplitName m) st)) fs0 [''unittest'', ''unittest''])"
    using read_list_concat [of reader0 env0 "[''unittest'', ''unittest'']" fs0] a by blast
  then have c1: "fst (read reader0 env0 (SplitList [''unittest'', ''unittest'']) fs0) =
      (concat (map (\<lambda>n. fst (fst (read reader0 env0 (SplitName n) fs0)))
         [''unittest'', ''unittest'']), None)"
    by (simp only: fst_conv)
  have b: "[''unittest'', ''nope'', ''unittest''] = [''unittest''] @ ''nope'' # [''unittest''] \<and>
      (\<forall>m \<in> set [''unittest'']. snd (fst (read reader0 env0 (SplitName m) fs0)) = None) \<and>
      snd (fst (read reader0 env0 (SplitName ''nope'') fs0)) = Some (ValueError ''Unrecognized split: nope.'')"
    by (simp add: read_reader0_unittest read_reader0_nope)
  have "read reader0 env0 (SplitList [''unittest'', ''nope'', ''unittest'']) fs0 =
      ((concat (map (\<lambda>m. fst (fst (read reader0 env0 (SplitName m) fs0))) [''unittest'']) @
           fst (fst (read reader0 env0 (SplitName ''nope'') fs0)),
        Some (ValueError ''Unrecognized split: nope.'')),
       foldl (\<lambda>st m. snd (read reader0 env0 (SplitName m) st)) fs0 ([''unittest''] @ [''nope'']))"
    using read_list_concat [of reader0 env0 "[''unittest'', ''nope'', ''unittest'']" fs0] b by blast
  then have c2: "fst (read reader0 env0 (SplitList [''unittest'', ''nope'', ''unittest'']) fs0) =
      (concat (map (\<lambda>m. fst (fst (read reader0 env0 (SplitName m) fs0))) [''unittest'']) @
           fst (fst (read reader0 env0 (SplitName ''nope'') fs0)),
       Some (ValueError ''Unrecognized split: nope.''))"
    by (simp only: fst_conv)
  have d: "[''nope'', ''unittest''] = [] @ ''nope'' # [''unittest''] \<and>
      (\<forall>m \<in> set []. snd (fst (read reader0 env0 (SplitName m) fs0)) = None) \<and>
      snd (fst (read reader0 env0 (SplitName ''nope'') fs0)) = Some (ValueError ''Unrecognized split: nope.'')"
    by (simp add: read_reader0_nope)
  have "read reader0 env0 (SplitList [''nope'', ''unittest'']) fs0 =
      ((concat (map (\<lambda>m. fst (fst (read reader0 env0 (SplitName m) fs0))) []) @
           fst (fst (read reader0 env0 (SplitName ''nope'') fs0)),
        Some (ValueError ''Unrecognized split: nope.'')),
       foldl (\<lambda>st m. snd (read reader0 env0 (SplitName m) st)) fs0 ([] @ [''nope'']))"
    using read_list_concat [of reader0 env0 "[''nope'', ''unittest'']" fs0] d by blast
  then have c3: "read reader0 env0 (SplitList [''nope'', ''unittest'']) fs0 =
     (([], Some (ValueError ''Unrecognized split: nope.'')), fs0)"
    by (simp add: read_reader0_nope)
  from c1 c2 c3 read_reader0_unittest_writes show ?thesis
    by (simp add: read_reader0_unittest read_reader0_nope)
qed

theorem read_list_concat_counterexample:
  "fst (fst (read reader0 env0 (SplitList [''nope'', ''unittest'']) fs0)) \<noteq>
     fst (fst (read reader0 env0 (SplitName ''nope'') fs0)) @
     fst (fst (read reader0 env0 (SplitName ''unittest'') fs0))"
proof -
  have "fst (read_split reader0 env0 ''nope'' fs0) = ([], Some (ValueError ''Unrecognized split: nope.''))"
    using read_reader0_nope by (simp add: read_def)
  then have "fst (read reader0 env0 (SplitList [''nope'', ''unittest'']) fs0) =
          ([], Some (ValueError ''Unrecognized split: nope.''))"
    by (cases "read_split reader0 env0 ''nope'' fs0") (auto simp: read_def)
  then show ?thesis
    by (simp add: read_reader0_unittest read_reader0_nope)
qed

subsection \<open>Beam search with beam size 1\<close>

text \<open>
  Whatever the order of candidates with equal scores, the top-k selection keeps
  \<^verbatim>\<open>min k n\<close> of n candidates and leaves out none that scores strictly higher
  than one it keeps.
\<close>

lemma rearranges_set:
  assumes "rearranges tie_order"
  shows "set (tie_order hs) = set hs"
proof -
  have "\<And>h. count_list (tie_order hs) h = count_list hs h"
    using assms unfolding rearranges_def by blast
  then have "count_list (tie_order hs) = count_list hs" by (intro ext)
  then have "\<And>h. count_list (tie_order hs) h = 0 \<longleftrightarrow> count_list hs h = 0"
    by (rule arg_cong [where f = "\<lambda>f. f _ = 0"])
  then have "\<And>h. h \<notin> set (tie_order hs) \<longleftrightarrow> h \<notin> set hs"
    by (simp only: count_list_0_iff)
  then show ?thesis by blast
qed

lemma rearranges_length:
  assumes "rearranges tie_order"
  shows "length (tie_order hs) = length hs"
proof -
  have "length (tie_order hs) = sum (count_list (tie_order hs)) (set hs)"
    by (rule sum_count_set [symmetric]) (simp_all add: rearranges_set [OF assms])
  also have "\<dots> = sum (count_list hs) (set hs)"
  proof -
    have "\<And>h. count_list (tie_order hs) h = count_list hs h"
      using assms unfolding rearranges_def by blast
    then have "count_list (tie_order hs) = count_list hs" by (intro ext)
    then show ?thesis by (rule arg_cong [where f = "\<lambda>f. sum f (set hs)"])
  qed
  also have "\<dots> = length hs"
    by (rule sum_count_set) simp_all
  finally show ?thesis .
qed

lemma take_sort_key_best:
  assumes "h \<in> set (take k (sort_key f hs))" and "h' \<in> set hs" and "f h' < (f h :: real)"
  shows "h' \<in> set (take k (sort_key f hs))"
proof (rule ccontr)
  let ?s = "sort_key f hs"
  assume n: "h' \<notin> set (take k ?s)"
  have "set ?s = set (take k ?s) \<union> set (drop k ?s)"
    by (metis append_take_drop_id set_append)
  moreover have "h' \<in> set ?s" using assms(2) by simp
  ultimately have d: "h' \<in> set (drop k ?s)" using n by auto
  have "sorted (map f (take k ?s @ drop k ?s))" by simp
  then have "\<forall>x \<in> set (map f (take k ?s)). \<forall>y \<in> set (map f (drop k ?s)). x \<le> y"
    unfolding map_append sorted_append by blast
  then have "f h \<le> f h'" using assms(1) d by auto
  with assms(3) show False by simp
qed

lemma top_k_length:
  "rearranges tie_order \<Longrightarrow> length (top_k tie_order k hs) = min k (length hs)"
  by (simp add: top_k_def rearranges_length)

lemma top_k_subset:
  assumes "rearranges tie_order"
  shows "set (top_k tie_order k hs) \<subseteq> set hs"
proof -
  have "set (take k (sort_key (\<lambda>h. - fst (snd h)) (tie_order hs))) \<subseteq>
          set (sort_key (\<lambda>h. - fst (snd h)) (tie_order hs))"
    by (rule set_take_subset)
  then show ?thesis by (simp add: top_k_def rearranges_set [OF assms])
qed

lemma top_k_best:
  assumes r: "rearranges tie_order"
      and h: "h \<in> set (top_k tie_order k hs)" and h': "h' \<in> set hs"
      and lt: "fst (snd h) < fst (snd h')"
  shows "h' \<in> set (top_k tie_order k hs)"
proof -
  let ?f = "\<lambda>h :: 'a hypothesis. - fst (snd h)"
  from h have a: "h \<in> set (take k (sort_key ?f (tie_order hs)))" by (simp add: top_k_def)
  from h' have b: "h' \<in> set (tie_order hs)" by (simp add: rearranges_set [OF r])
  from lt have c: "?f h' < ?f h" by simp
  from a b c have "h' \<in> set (take k (sort_key ?f (tie_order hs)))"
    by (rule take_sort_key_best)
  then show ?thesis by (simp add: top_k_def)
qed

lemma top_1_best:
  assumes r: "rearranges tie_order"
      and b: "b \<in> set hs"
      and u: "\<forall>h \<in> set hs. h \<noteq> b \<longrightarrow> fst (snd h) < fst (snd b)"
  shows "top_k tie_order 1 hs = [b]"
proof -
  from b have "hs \<noteq> []" by auto
  then have "min 1 (length hs) = 1" by (cases hs) auto
  then have "length (top_k tie_order 1 hs) = 1"
    by (simp add: top_k_length [OF r])
  then obtain h where h: "top_k tie_order 1 hs = [h]"
    by (cases "top_k tie_order 1 hs") auto
  have "h \<in> set (top_k tie_order 1 hs)" unfolding h by simp
  with top_k_subset [OF r, of 1 hs] have hc: "h \<in> set hs" by blast
  have "h = b"
  proof (rule ccontr)
    assume n: "h \<noteq> b"
    with u hc have "fst (snd h) < fst (snd b)" by blast
    with top_k_best [OF r, of h 1 hs b] b have "b \<in> set (top_k tie_order 1 hs)"
      unfolding h by simp
    with n show False unfolding h by simp
  qed
  with h show ?thesis by simp
qed

text \<open>
  One hypothesis in the beam, not ended, and a single maximal class: every top-1 selection
  and every argmax agree on the next token.
\<close>

lemma single_maximum_pick:
  assumes s: "single_maximum log_probs" and p: "picks_maximum pick"
  shows "pick log_probs < length log_probs \<and>
         (\<forall>c < length log_probs. c \<noteq> pick log_probs \<longrightarrow>
            log_probs ! c < log_probs ! pick log_probs)"
proof -
  from s obtain m where m: "m < length log_probs"
    and u: "\<forall>c' < length log_probs. c' \<noteq> m \<longrightarrow> log_probs ! c' < log_probs ! m"
    by (auto simp: single_maximum_def)
  then have ne: "log_probs \<noteq> []" by auto
  with p have l: "pick log_probs < length log_probs"
    and g: "\<forall>c < length log_probs. log_probs ! c \<le> log_probs ! pick log_probs"
    by (auto simp: picks_maximum_def)
  have "pick log_probs = m"
  proof (rule ccontr)
    assume "pick log_probs \<noteq> m"
    with u l have "log_probs ! pick log_probs < log_probs ! m" by blast
    moreover from g m have "log_probs ! m \<le> log_probs ! pick log_probs" by blast
    ultimately show False by simp
  qed
  with l u show ?thesis by blast
qed

lemma top_1_candidates:
  assumes r: "rearranges tie_order" and p: "picks_maximum pick"
      and t: "take_step (last_prediction start_prediction tokens) state = (log_probs, state')"
      and s: "single_maximum log_probs"
      and e: "\<not> ended end_index (tokens, score, state)"
  shows "top_k tie_order 1
           (candidates take_step start_prediction end_index [(tokens, score, state)]) =
           [(tokens @ [pick log_probs], score + log_probs ! pick log_probs, state')]"
proof -
  let ?g = "\<lambda>(c, p). (tokens @ [c], score + p, state')"
  let ?cands = "map ?g (enumerate 0 log_probs)"
  let ?b = "(tokens @ [pick log_probs], score + log_probs ! pick log_probs, state')"
  from single_maximum_pick [OF s p]
  have l: "pick log_probs < length log_probs"
    and u: "\<forall>c < length log_probs. c \<noteq> pick log_probs \<longrightarrow>
            log_probs ! c < log_probs ! pick log_probs"
    by blast+
  have x: "candidates take_step start_prediction end_index [(tokens, score, state)] = ?cands"
    using e by (simp add: candidates_def expand_def t)
  have "(pick log_probs, log_probs ! pick log_probs) \<in> set (enumerate 0 log_probs)"
    using l by (simp add: in_set_enumerate_eq)
  then have b: "?b \<in> set ?cands" by force
  have w: "\<forall>h \<in> set ?cands. h \<noteq> ?b \<longrightarrow> fst (snd h) < fst (snd ?b)"
  proof (intro ballI impI)
    fix h assume "h \<in> set ?cands" and n: "h \<noteq> ?b"
    then obtain c where c: "c < length log_probs"
      and h: "h = (tokens @ [c], score + log_probs ! c, state')"
      by (auto simp: in_set_enumerate_eq)
    with n have "c \<noteq> pick log_probs" by auto
    with u c have "log_probs ! c < log_probs ! pick log_probs" by blast
    then show "fst (snd h) < fst (snd ?b)" by (simp add: h)
  qed
  from top_1_best [of tie_order ?b ?cands, OF r b w] show ?thesis
    by (simp only: x)
qed

lemma beam_steps_ended:
  "list_all (ended end_index) beam \<Longrightarrow>
     beam_steps tie_order end_index k take_step start_prediction n beam = beam"
  by (cases n) simp_all

lemma last_prediction_snoc: "last_prediction start_prediction (tokens @ [c]) = c"
  by (simp add: last_prediction_def)

lemma takeWhile_end:
  "takeWhile (\<lambda>x. x \<noteq> e) (xs @ [e]) = takeWhile (\<lambda>x. x \<noteq> e) (xs @ e # ys)"
  by (induction xs) simp_all

lemma beam_steps_one:
  assumes r: "rearranges tie_order" and p: "picks_maximum pick"
  shows "\<not> ended end_index (tokens, score, state) \<Longrightarrow>
         untied_path pick take_step end_index n (last_prediction start_prediction tokens) state \<Longrightarrow>
         map (\<lambda>h. takeWhile (\<lambda>x. x \<noteq> end_index) (fst h))
           (beam_steps tie_order end_index 1 take_step start_prediction n
              [(tokens, score, state)]) =
           [takeWhile (\<lambda>x. x \<noteq> end_index)
              (tokens @ greedy_loop pick take_step n
                          (last_prediction start_prediction tokens) state)]"
proof (induction n arbitrary: tokens score state)
  case 0
  then show ?case by simp
next
  case (Suc n)
  obtain log_probs state' where
    t: "take_step (last_prediction start_prediction tokens) state = (log_probs, state')"
    by (cases "take_step (last_prediction start_prediction tokens) state")
  from Suc.prems(2) t have s: "single_maximum log_probs"
    and u: "pick log_probs = end_index \<or>
            untied_path pick take_step end_index n (pick log_probs) state'"
    by simp_all
  let ?t = "tokens @ [pick log_probs]"
  let ?h = "(?t, score + log_probs ! pick log_probs, state')"
  have b: "beam_steps tie_order end_index 1 take_step start_prediction (Suc n)
             [(tokens, score, state)] =
           beam_steps tie_order end_index 1 take_step start_prediction n [?h]"
    using top_1_candidates [of tie_order pick take_step start_prediction tokens state
                               log_probs state' end_index score, OF r p t s Suc.prems(1)]
          Suc.prems(1)
    by simp
  have g: "greedy_loop pick take_step (Suc n) (last_prediction start_prediction tokens) state =
           pick log_probs # greedy_loop pick take_step n (pick log_probs) state'"
    by (simp add: t Let_def)
  show ?case
  proof (cases "pick log_probs = end_index")
    case True
    then have "list_all (ended end_index) [?h]" by (simp add: ended_def)
    then have st: "beam_steps tie_order end_index 1 take_step start_prediction n [?h] = [?h]"
      by (rule beam_steps_ended)
    show ?thesis
      unfolding b st g
      using True takeWhile_end [of end_index tokens
              "greedy_loop pick take_step n (pick log_probs) state'"]
      by simp
  next
    case False
    then have ne: "\<not> ended end_index ?h" by (simp add: ended_def)
    from False u have
      "untied_path pick take_step end_index n (last_prediction start_prediction ?t) state'"
      by (simp only: last_prediction_snoc) simp
    from Suc.IH [OF ne this] show ?thesis
      unfolding b g by (simp add: last_prediction_snoc)
  qed
qed

lemma beam_steps_Suc:
  "beam_steps tie_order end_index k take_step start_prediction (Suc n) beam =
     (if list_all (ended end_index)
           (beam_steps tie_order end_index k take_step start_prediction n beam)
      then beam_steps tie_order end_index k take_step start_prediction n beam
      else top_k tie_order k (candidates take_step start_prediction end_index
             (beam_steps tie_order end_index k take_step start_prediction n beam)))"
proof (induction n arbitrary: beam)
  case 0
  then show ?case by simp
next
  case (Suc n)
  show ?case
  proof (cases "list_all (ended end_index) beam")
    case True
    then have "\<And>m. beam_steps tie_order end_index k take_step start_prediction m beam = beam"
      by (rule beam_steps_ended)
    with True show ?thesis by (simp only: if_True)
  next
    case False
    let ?b = "top_k tie_order k (candidates take_step start_prediction end_index beam)"
    have a: "\<And>m. beam_steps tie_order end_index k take_step start_prediction (Suc m) beam =
          beam_steps tie_order end_index k take_step start_prediction m ?b"
      using False by simp
    show ?thesis
      unfolding a by (rule Suc.IH)
  qed
qed

text \<open>
  The first-maximum argmax picks a maximum, and both orders of the candidates are
  rearrangements.
\<close>

lemma foldl_keep_le:
  "f (foldl (\<lambda>b y. if f y < f b then y else b) b zs) \<le> (f b :: real)"
proof (induction zs arbitrary: b)
  case Nil
  then show ?case by simp
next
  case (Cons z zs)
  have "f (foldl (\<lambda>b y. if f y < f b then y else b) (if f z < f b then z else b) zs)
          \<le> f (if f z < f b then z else b)"
    by (rule Cons.IH)
  then show ?case by (auto split: if_splits)
qed

lemma foldl_keep_first:
  "f x \<le> (f y :: real) \<Longrightarrow>
     foldl (\<lambda>b y. if f y < f b then y else b) x zs =
       (if f x \<le> f (foldl (\<lambda>b y. if f y < f b then y else b) y zs) then x
        else foldl (\<lambda>b y. if f y < f b then y else b) y zs)"
proof (induction zs arbitrary: x y)
  case Nil
  then show ?case by simp
next
  case (Cons z zs)
  let ?F = "foldl (\<lambda>b y. if f y < f b then y else b)"
  show ?case
  proof (cases "f z < f x")
    case True
    then have zy: "f z < f y" using Cons.prems by simp
    have "f (?F z zs) \<le> f z" by (rule foldl_keep_le)
    then have "\<not> f x \<le> f (?F z zs)" using True by simp
    then show ?thesis using True zy by simp
  next
    case False
    let ?y' = "if f z < f y then z else y"
    have "f x \<le> f ?y'" using False Cons.prems by simp
    from Cons.IH [OF this] show ?thesis using False by simp
  qed
qed

lemma arg_min_list_foldl:
  "arg_min_list f (x # xs) = foldl (\<lambda>b y. if f y < (f b :: real) then y else b) x xs"
proof (induction xs arbitrary: x)
  case Nil
  then show ?case by simp
next
  case (Cons y zs)
  let ?F = "foldl (\<lambda>b y. if f y < f b then y else b)"
  have m: "arg_min_list f (y # zs) = ?F y zs" by (rule Cons.IH)
  show ?case
  proof (cases "f y < f x")
    case True
    have "f (?F y zs) \<le> f y" by (rule foldl_keep_le)
    then have "\<not> f x \<le> f (?F y zs)" using True by simp
    then show ?thesis using True m by (simp add: Let_def)
  next
    case False
    then have "f x \<le> f y" by simp
    with foldl_keep_first [of f x y zs] show ?thesis
      using False m by (simp add: Let_def)
  qed
qed

lemma argmax_first_arg_min:
  assumes "log_probs \<noteq> []"
  shows "argmax_first log_probs = fst (arg_min_list (\<lambda>(c, p). - p) (enumerate 0 log_probs))"
proof -
  obtain p ps where l: "log_probs = p # ps" using assms by (cases log_probs) auto
  let ?f = "\<lambda>(c :: nat, p :: real). - p"
  have s: "(\<lambda>b y. if ?f y < ?f b then y else b) =
           (\<lambda>best cand. if snd best < snd cand then cand else best)"
    by (intro ext) (auto split: prod.splits)
  have e: "arg_min_list ?f (enumerate 0 log_probs) =
        foldl (\<lambda>best cand. if snd best < snd cand then cand else best) (0, p) (enumerate 1 ps)"
    unfolding l using arg_min_list_foldl [of ?f "(0, p)" "enumerate 1 ps"]
    by (simp only: s enumerate_simps One_nat_def)
  show ?thesis unfolding e by (simp add: l)
qed

lemma picks_maximum_argmax_first: "picks_maximum argmax_first"
  unfolding picks_maximum_def
proof (intro allI impI)
  fix log_probs :: "real list"
  assume ne: "log_probs \<noteq> []"
  let ?f = "\<lambda>(c :: nat, p :: real). - p"
  let ?e = "enumerate 0 log_probs"
  let ?m = "arg_min_list ?f ?e"
  have en: "?e \<noteq> []" using ne by (cases log_probs) auto
  have a: "argmax_first log_probs = fst ?m" using ne by (rule argmax_first_arg_min)
  have "?m \<in> set ?e" using en by (rule arg_min_list_in)
  then have l: "fst ?m < length log_probs" and v: "snd ?m = log_probs ! fst ?m"
    by (auto simp: in_set_enumerate_eq)
  have mn: "?f ?m = Min (?f ` set ?e)" using en by (rule f_arg_min_list_f)
  have "\<forall>c < length log_probs. log_probs ! c \<le> log_probs ! fst ?m"
  proof (intro allI impI)
    fix c assume c: "c < length log_probs"
    then have "(c, log_probs ! c) \<in> set ?e" by (simp add: in_set_enumerate_eq)
    then have "?f (c, log_probs ! c) \<in> ?f ` set ?e" by (rule imageI)
    then have "Min (?f ` set ?e) \<le> ?f (c, log_probs ! c)" by (intro Min_le) simp_all
    with mn have "?f ?m \<le> ?f (c, log_probs ! c)" by simp
    then have "- snd ?m \<le> - (log_probs ! c)" by (simp add: case_prod_beta)
    with v show "log_probs ! c \<le> log_probs ! fst ?m" by simp
  qed
  with l a show "argmax_first log_probs < length log_probs \<and>
     (\<forall>c<length log_probs. log_probs ! c \<le> log_probs ! argmax_first log_probs)"
    by simp
qed

lemma rearranges_keep_order: "rearranges keep_order"
  by (simp add: rearranges_def keep_order_def)

lemma rearranges_reverse_order: "rearranges reverse_order"
  by (simp add: rearranges_def reverse_order_def)

text \<open>
  C7. The claim as stated does not hold for any input: the glossary does not say which of
  two candidates with equal scores is retained, and a top-k selection and an argmax may
  settle a tie differently. What holds, for every order of equal-scored candidates and
  every argmax: if at every step of the greedy path, up to the step that predicts the end
  symbol, a single class has the maximal log-probability, then beam search with beam size
  1 returns one sequence and its predicted tokens are those of greedy decoding. And at
  every step of the search, for every beam size k, the next beam is the top-k selection
  of the candidates of the current beam: it has \<^verbatim>\<open>min k n\<close> of the n
  candidates, all of them candidates, and no candidate left out scores strictly higher
  than one retained; the beam no longer changes once all its hypotheses have ended.
\<close>

theorem beam_search_greedy:
  fixes take_step :: "'st take_step" and tie_order :: "'st tie_order"
    and get_token_from_index :: "nat \<Rightarrow> 'tok"
  assumes "rearranges tie_order" and "picks_maximum pick"
  shows "(untied_path pick take_step end_index max_steps start_prediction state \<longrightarrow>
            map (predicted_tokens get_token_from_index end_index)
              (beam_search tie_order end_index 1 max_steps take_step start_prediction state) =
            [predicted_tokens get_token_from_index end_index
               (greedy_decode pick max_steps take_step start_prediction state)]) \<and>
         (\<forall>k n.
            let beam = beam_after tie_order end_index k take_step start_prediction state n;
                beam' = beam_after tie_order end_index k take_step start_prediction state (Suc n);
                cands = candidates take_step start_prediction end_index beam
            in if list_all (ended end_index) beam then beam' = beam
               else beam' = top_k tie_order k cands \<and>
                    length beam' = min k (length cands) \<and>
                    set beam' \<subseteq> set cands \<and>
                    (\<forall>h \<in> set beam'. \<forall>h' \<in> set cands.
                       fst (snd h) < fst (snd h') \<longrightarrow> h' \<in> set beam'))"
proof (intro conjI impI allI)
  assume u: "untied_path pick take_step end_index max_steps start_prediction state"
  have e: "\<not> ended end_index ([], 0 :: real, state)" by (simp add: ended_def)
  have l: "last_prediction start_prediction [] = start_prediction"
    by (simp add: last_prediction_def)
  from u have u': "untied_path pick take_step end_index max_steps
                     (last_prediction start_prediction []) state"
    by (simp only: l)
  have "map (\<lambda>h. takeWhile (\<lambda>x. x \<noteq> end_index) (fst h))
          (beam_steps tie_order end_index 1 take_step start_prediction max_steps
             [([], 0, state)]) =
        [takeWhile (\<lambda>x. x \<noteq> end_index)
           ([] @ greedy_loop pick take_step max_steps
                   (last_prediction start_prediction []) state)]"
    using assms e u' by (rule beam_steps_one)
  then have "map (\<lambda>h. map get_token_from_index (takeWhile (\<lambda>x. x \<noteq> end_index) (fst h)))
          (beam_steps tie_order end_index 1 take_step start_prediction max_steps
             [([], 0, state)]) =
        [map get_token_from_index (takeWhile (\<lambda>x. x \<noteq> end_index)
           (greedy_loop pick take_step max_steps start_prediction state))]"
    unfolding l
    by (simp add: list_eq_iff_nth_eq)
  then show "map (predicted_tokens get_token_from_index end_index)
              (beam_search tie_order end_index 1 max_steps take_step start_prediction state) =
            [predicted_tokens get_token_from_index end_index
               (greedy_decode pick max_steps take_step start_prediction state)]"
    by (simp add: predicted_tokens_def beam_search_def beam_after_def greedy_decode_def
          comp_def)
next
  fix k n
  let ?beam = "beam_after tie_order end_index k take_step start_prediction state n"
  let ?beam' = "beam_after tie_order end_index k take_step start_prediction state (Suc n)"
  let ?cands = "candidates take_step start_prediction end_index ?beam"
  have s: "?beam' = (if list_all (ended end_index) ?beam then ?beam
                     else top_k tie_order k ?cands)"
    unfolding beam_after_def by (rule beam_steps_Suc)
  show "let beam = ?beam; beam' = ?beam'; cands = candidates take_step start_prediction end_index beam
        in if list_all (ended end_index) beam then beam' = beam
           else beam' = top_k tie_order k cands \<and>
                length beam' = min k (length cands) \<and>
                set beam' \<subseteq> set cands \<and>
                (\<forall>h \<in> set beam'. \<forall>h' \<in> set cands.
                   fst (snd h) < fst (snd h') \<longrightarrow> h' \<in> set beam')"
  proof (cases "list_all (ended end_index) ?beam")
    case True
    with s show ?thesis by (simp only: Let_def if_True)
  next
    case False
    with s have b: "?beam' = top_k tie_order k ?cands" by (simp only: if_False)
    have "length (top_k tie_order k ?cands) = min k (length ?cands)"
      using assms(1) by (rule top_k_length)
    moreover have "set (top_k tie_order k ?cands) \<subseteq> set ?cands"
      using assms(1) by (rule top_k_subset)
    moreover have "\<forall>h \<in> set (top_k tie_order k ?cands). \<forall>h' \<in> set ?cands.
                   fst (snd h) < fst (snd h') \<longrightarrow> h' \<in> set (top_k tie_order k ?cands)"
      using top_k_best [OF assms(1)] by blast
    ultimately show ?thesis
      using False unfolding Let_def b by (simp only: if_False simp_thms)
  qed
qed


text \<open>
  On \<^verbatim>\<open>step1\<close> no step of the greedy path before the end symbol has a tie: beam
  search with beam size 1 stops at the end symbol after five steps, greedy decoding runs
  all seven, and the predicted tokens agree. With beam size 2 the second beam holds the
  best candidate and one of the two that tie for the second place.
\<close>

theorem beam_search_greedy_witness:
  "rearranges reverse_order \<and> picks_maximum argmax_first \<and>
   untied_path argmax_first step1 0 7 0 0 \<and>
   map (predicted_tokens vocab0 0) (beam_search reverse_order 0 1 7 step1 0 0) =
     [[''no'', ''no'', ''yes'', ''yes'']] \<and>
   predicted_tokens vocab0 0 (greedy_decode argmax_first 7 step1 0 0) =
     [''no'', ''no'', ''yes'', ''yes''] \<and>
   beam_search reverse_order 0 1 7 step1 0 0 = [[2, 2, 1, 1, 0]] \<and>
   greedy_decode argmax_first 7 step1 0 0 = [2, 2, 1, 1, 0, 0, 0] \<and>
   beam_after reverse_order 0 2 step1 0 0 1 = [([2], 2, 1), ([1], 1, 1)] \<and>
   candidates step1 0 0 (beam_after reverse_order 0 2 step1 0 0 1) =
     [([2, 0], 2, 2), ([2, 1], 3, 2), ([2, 2], 4, 2),
      ([1, 0], 3, 2), ([1, 1], 1, 2), ([1, 2], 2, 2)] \<and>
   beam_after reverse_order 0 2 step1 0 0 2 = [([2, 2], 4, 2), ([1, 0], 3, 2)]"
proof -
  have u: "untied_path argmax_first step1 0 7 0 0" by code_simp
  have g: "greedy_decode argmax_first 7 step1 0 0 = [2, 2, 1, 1, 0, 0, 0]" by code_simp
  have p: "predicted_tokens vocab0 0 [2, 2, 1, 1, 0, 0, 0] = [''no'', ''no'', ''yes'', ''yes'']"
    by code_simp
  have b: "beam_search reverse_order 0 1 7 step1 0 0 = [[2, 2, 1, 1, 0]]" by code_simp
  have b1: "beam_after reverse_order 0 2 step1 0 0 1 = [([2], 2, 1), ([1], 1, 1)]"
    by code_simp
  have c: "candidates step1 0 0 [([2], 2, 1), ([1], 1, 1)] =
     [([2, 0], 2, 2), ([2, 1], 3, 2), ([2, 2], 4, 2),
      ([1, 0], 3, 2), ([1, 1], 1, 2), ([1, 2], 2, 2)]"
    by code_simp
  have b2: "beam_after reverse_order 0 2 step1 0 0 2 = [([2, 2], 4, 2), ([1, 0], 3, 2)]"
    by code_simp
  from beam_search_greedy [of reverse_order argmax_first step1 0 7 0 0 vocab0,
         OF rearranges_reverse_order picks_maximum_argmax_first] u
  have "map (predicted_tokens vocab0 0) (beam_search reverse_order 0 1 7 step1 0 0) =
          [predicted_tokens vocab0 0 (greedy_decode argmax_first 7 step1 0 0)]"
    by blast
  then have "map (predicted_tokens vocab0 0) (beam_search reverse_order 0 1 7 step1 0 0) =
          [[''no'', ''no'', ''yes'', ''yes'']]"
    unfolding g p .
  with rearranges_reverse_order picks_maximum_argmax_first u g p b b1 b2 c show ?thesis
    by simp
qed


text \<open>
  On \<^verbatim>\<open>step0\<close> classes 1 and 2 tie at the second step: the first-maximum argmax
  predicts class 1, the top-1 selection over the reversed candidates retains class 2, and
  the predicted tokens differ.
\<close>

theorem beam_search_greedy_counterexample:
  "rearranges reverse_order \<and> picks_maximum argmax_first \<and>
   map (predicted_tokens vocab0 0) (beam_search reverse_order 0 1 2 step0 0 0) =
     [[''yes'', ''no'']] \<and>
   predicted_tokens vocab0 0 (greedy_decode argmax_first 2 step0 0 0) = [''yes'', ''yes'']"
proof -
  have b: "map (predicted_tokens vocab0 0) (beam_search reverse_order 0 1 2 step0 0 0) =
     [[''yes'', ''no'']]"
    by code_simp
  have g: "predicted_tokens vocab0 0 (greedy_decode argmax_first 2 step0 0 0) =
     [''yes'', ''yes'']"
    by code_simp
  from rearranges_reverse_order picks_maximum_argmax_first b g show ?thesis by blast
qed

end
